theory Spec2Isabelle
  imports Main "HOL-Library.Word" "HOL-Library.Signed_Division" "HOL-Library.Log_Nat"
begin

unbundle bit_operations_syntax

section \<open>Machine types of the Go source\<close>

text \<open>
  Go's \<open>uint8\<close> is an 8-bit word: \<open>+\<close>, \<open>-\<close> and \<open>*\<close> wrap modulo 256, \<open>div\<close> is
  the unsigned quotient and \<open><\<close> the unsigned order.  Go's \<open>int\<close> is taken as the 64-bit
  two's-complement integer of the 64-bit platforms; it is read with \<open>sint\<close>, compared
  with the signed order, and divided with truncation towards zero.
\<close>

type_synonym uint8 = "8 word"
type_synonym goint = "64 word"

section \<open>Go's \<open>float64\<close>\<close>

text \<open>
  A \<open>float64\<close> is an IEEE 754 binary64 value.  \<open>Finite s m e\<close> is the number
  \<open>(-1)\<^sup>s * m * 2\<^sup>e\<close> with a mantissa \<open>m \<ge> 0\<close>; the two zeros are \<open>Finite False 0 0\<close> and
  \<open>Finite True 0 0\<close>.  \<open>Infinity s\<close> are the two infinities and \<open>NaN\<close> stands for every
  not-a-number.  Every arithmetic operation computes the exact result and rounds it once,
  to the nearest binary64 value, ties to the even mantissa, as Go does on the compilers
  that do not fuse a multiplication with an addition (amd64).
\<close>

datatype f64 = Finite bool int int | Infinity bool | NaN

text \<open>\<open>m * 2\<^sup>k\<close> for a shift \<open>k \<ge> 0\<close>.\<close>

definition scale2 :: "int \<Rightarrow> int \<Rightarrow> int" where
  "scale2 m k = m * 2 ^ nat k"

definition quotRem :: "int \<Rightarrow> int \<Rightarrow> int \<times> int" where
  "quotRem N D = (N div D, N mod D)"

text \<open>
  The results are kept with an odd mantissa (or as a zero), so that equal numbers are
  equal terms.
\<close>

function stripZeros :: "bool \<Rightarrow> int \<Rightarrow> int \<Rightarrow> f64" where
  "stripZeros s m e =
     (if m = 0 then Finite s 0 0
      else if even m then stripZeros s (m div 2) (e + 1)
      else Finite s m e)"
  by pat_completeness auto
termination
  by (relation "measure (\<lambda>(s, m, e). nat \<bar>m\<bar>)") (auto elim!: evenE)

declare stripZeros.simps [simp del]

text \<open>
  Rounding of the positive rational \<open>n / d * 2\<^sup>e\<close> with sign \<open>s\<close>, in the steps of a
  software floating-point unit.  The quotient is first taken with at least 55 significant
  bits, by scaling the numerator (or the denominator) with \<open>2\<^sup>k\<close>, and its last bit is made
  sticky: it is set when the division left a remainder.  The quotient \<open>q\<close> then stands
  for the number \<open>q * 2\<^sup>x\<close>.  Of its bits the lowest \<open>t\<close> are dropped, so that 53 remain
  and the exponent does not fall below \<open>-1074\<close>, that of the smallest subnormal number; the
  dropped bits decide the rounding, to the nearest and on a tie to the even mantissa.  A
  result of \<open>2\<^sup>1\<^sup>0\<^sup>2\<^sup>4\<close> or more overflows to an infinity.
\<close>

definition pack :: "bool \<Rightarrow> int \<Rightarrow> int \<Rightarrow> f64" where
  "pack s m e = (if bitlen m + e > 1024 then Infinity s else stripZeros s m e)"

definition nearestEven :: "int \<Rightarrow> int \<Rightarrow> int \<Rightarrow> int" where
  "nearestEven h r half = (if r < half \<or> (r = half \<and> even h) then h else h + 1)"

definition narrow :: "bool \<Rightarrow> int \<Rightarrow> int \<Rightarrow> int \<Rightarrow> f64" where
  "narrow s q x t =
     pack s (nearestEven (q div scale2 1 t) (q mod scale2 1 t) (scale2 1 (t - 1))) (x + t)"

definition roundSticky :: "bool \<Rightarrow> int \<Rightarrow> int \<Rightarrow> f64" where
  "roundSticky s q x = narrow s q x (max (bitlen q - 53) (- 1074 - x))"

definition sticky :: "int \<times> int \<Rightarrow> int" where
  "sticky qr = 2 * fst qr + (if snd qr = 0 then 0 else 1)"

definition quotSticky :: "int \<Rightarrow> int \<Rightarrow> int" where
  "quotSticky N D = sticky (quotRem N D)"

definition roundScaled :: "bool \<Rightarrow> int \<Rightarrow> int \<Rightarrow> int \<Rightarrow> int \<Rightarrow> f64" where
  "roundScaled s n d e k =
     roundSticky s
       (if 0 \<le> k then quotSticky (scale2 n k) d else quotSticky n (scale2 d (- k)))
       (e - k - 1)"

definition roundRat :: "bool \<Rightarrow> int \<Rightarrow> int \<Rightarrow> int \<Rightarrow> f64" where
  "roundRat s n d e =
     (if n = 0 then Finite s 0 0 else roundScaled s n d e (55 + bitlen d - bitlen n))"

text \<open>
  The conversion \<open>float64(k)\<close> of an integer, and a constant of the source text such as
  \<open>7.99\<close>, which the compiler rounds from the exact fraction \<open>799 / 100\<close>.
\<close>

definition f64_of_int :: "int \<Rightarrow> f64" where
  "f64_of_int k = roundRat (k < 0) \<bar>k\<bar> 1 0"

definition f64_const :: "int \<Rightarrow> int \<Rightarrow> f64" where
  "f64_const n d = roundRat False n d 0"

fun f64_neg :: "f64 \<Rightarrow> f64" where
  "f64_neg (Finite s m e) = Finite (\<not> s) m e"
| "f64_neg (Infinity s) = Infinity (\<not> s)"
| "f64_neg NaN = NaN"

definition withSign :: "bool \<Rightarrow> int \<Rightarrow> int" where
  "withSign s m = (if s then - m else m)"

text \<open>The signed mantissa of \<open>m * 2\<^sup>e\<close> at the smaller of the exponents \<open>e\<close> and \<open>e'\<close>.\<close>

definition aligned :: "bool \<Rightarrow> int \<Rightarrow> int \<Rightarrow> int \<Rightarrow> int" where
  "aligned s m e e' = scale2 (withSign s m) (e - min e e')"

text \<open>
  A sum that is exactly zero is \<open>+0\<close>, except that \<open>-0 + -0\<close> is \<open>-0\<close>: \<open>z\<close> says
  whether both operands were negative.
\<close>

definition roundSum :: "bool \<Rightarrow> int \<Rightarrow> int \<Rightarrow> f64" where
  "roundSum z c e = (if c = 0 then Finite z 0 0 else roundRat (c < 0) \<bar>c\<bar> 1 e)"

fun f64_add :: "f64 \<Rightarrow> f64 \<Rightarrow> f64" where
  "f64_add (Finite s1 m1 e1) (Finite s2 m2 e2) =
     roundSum (s1 \<and> s2) (aligned s1 m1 e1 e2 + aligned s2 m2 e2 e1) (min e1 e2)"
| "f64_add (Finite s1 m1 e1) (Infinity s2) = Infinity s2"
| "f64_add (Infinity s1) (Finite s2 m2 e2) = Infinity s1"
| "f64_add (Infinity s1) (Infinity s2) = (if s1 = s2 then Infinity s1 else NaN)"
| "f64_add NaN y = NaN"
| "f64_add x NaN = NaN"

definition f64_sub :: "f64 \<Rightarrow> f64 \<Rightarrow> f64" where
  "f64_sub x y = f64_add x (f64_neg y)"

fun f64_mul :: "f64 \<Rightarrow> f64 \<Rightarrow> f64" where
  "f64_mul (Finite s1 m1 e1) (Finite s2 m2 e2) = roundRat (s1 \<noteq> s2) (m1 * m2) 1 (e1 + e2)"
| "f64_mul (Finite s1 m1 e1) (Infinity s2) = (if m1 = 0 then NaN else Infinity (s1 \<noteq> s2))"
| "f64_mul (Infinity s1) (Finite s2 m2 e2) = (if m2 = 0 then NaN else Infinity (s1 \<noteq> s2))"
| "f64_mul (Infinity s1) (Infinity s2) = Infinity (s1 \<noteq> s2)"
| "f64_mul NaN y = NaN"
| "f64_mul x NaN = NaN"

fun f64_div :: "f64 \<Rightarrow> f64 \<Rightarrow> f64" where
  "f64_div (Finite s1 m1 e1) (Finite s2 m2 e2) =
     (if m2 = 0 then (if m1 = 0 then NaN else Infinity (s1 \<noteq> s2))
      else roundRat (s1 \<noteq> s2) m1 m2 (e1 - e2))"
| "f64_div (Finite s1 m1 e1) (Infinity s2) = Finite (s1 \<noteq> s2) 0 0"
| "f64_div (Infinity s1) (Finite s2 m2 e2) = Infinity (s1 \<noteq> s2)"
| "f64_div (Infinity s1) (Infinity s2) = NaN"
| "f64_div NaN y = NaN"
| "f64_div x NaN = NaN"

text \<open>The comparisons \<open><\<close> and \<open><=\<close>; both are false when an operand is not a number.\<close>

fun f64_lt :: "f64 \<Rightarrow> f64 \<Rightarrow> bool" where
  "f64_lt (Finite s1 m1 e1) (Finite s2 m2 e2) = (aligned s1 m1 e1 e2 < aligned s2 m2 e2 e1)"
| "f64_lt (Finite s1 m1 e1) (Infinity s2) = (\<not> s2)"
| "f64_lt (Infinity s1) (Finite s2 m2 e2) = s1"
| "f64_lt (Infinity s1) (Infinity s2) = (s1 \<and> \<not> s2)"
| "f64_lt NaN y = False"
| "f64_lt x NaN = False"

fun f64_le :: "f64 \<Rightarrow> f64 \<Rightarrow> bool" where
  "f64_le (Finite s1 m1 e1) (Finite s2 m2 e2) = (aligned s1 m1 e1 e2 \<le> aligned s2 m2 e2 e1)"
| "f64_le (Finite s1 m1 e1) (Infinity s2) = (\<not> s2)"
| "f64_le (Infinity s1) (Finite s2 m2 e2) = s1"
| "f64_le (Infinity s1) (Infinity s2) = (s1 \<or> \<not> s2)"
| "f64_le NaN y = False"
| "f64_le x NaN = False"

text \<open>
  A conversion to an integer type truncates towards zero.  When the truncated value does
  not fit the type, or the operand is an infinity or not a number, Go leaves the result to
  the implementation: the models take it from a parameter \<open>cvt\<close>, and what they prove
  holds for every choice of it.
\<close>

fun f64_trunc :: "f64 \<Rightarrow> int option" where
  "f64_trunc (Finite s m e) =
     Some (withSign s (if 0 \<le> e then scale2 m e else m div scale2 1 (- e)))"
| "f64_trunc (Infinity s) = None"
| "f64_trunc NaN = None"

definition f64_to_int :: "(f64 \<Rightarrow> goint) \<Rightarrow> f64 \<Rightarrow> goint" where
  "f64_to_int cvt x =
     (case f64_trunc x of
        None \<Rightarrow> cvt x
      | Some v \<Rightarrow> if - (2 ^ 63) \<le> v \<and> v < 2 ^ 63 then word_of_int v else cvt x)"

definition f64_to_uint8 :: "(f64 \<Rightarrow> uint8) \<Rightarrow> f64 \<Rightarrow> uint8" where
  "f64_to_uint8 cvt x =
     (case f64_trunc x of
        None \<Rightarrow> cvt x
      | Some v \<Rightarrow> if 0 \<le> v \<and> v < 256 then word_of_int v else cvt x)"

text \<open>
  One implementation's choice, used where an example needs a concrete one: on amd64 the
  conversion instruction answers every operand it cannot convert with the bit pattern
  \<open>0x8000000000000000\<close>, whose low byte is 0.
\<close>

definition cvtInt :: "f64 \<Rightarrow> goint" where
  "cvtInt x = - (2 ^ 63)"

definition cvtByte :: "f64 \<Rightarrow> uint8" where
  "cvtByte x = 0"

section \<open>The value of a \<open>float64\<close> and the rounding of IEEE 754\<close>

text \<open>
  The real number that a finite \<open>float64\<close> stands for, and the rounding that IEEE 754
  prescribes, stated on the real numbers: a positive real \<open>x\<close> is rounded on the grid of
  the multiples of \<open>2\<^sup>E\<close>, where \<open>E\<close> leaves 53 significant bits and is at least
  \<open>-1074\<close>, to the nearest grid point and on a tie to the even one.  The software
  rounding \<open>roundRat\<close> above is proved to compute exactly this.  \<open>rne x\<close> is the value of
  the rounded number.
\<close>

fun valof :: "f64 \<Rightarrow> real" where
  "valof (Finite s m e) = (if s then - 1 else 1) * (real_of_int m * 2 powi e)"
| "valof (Infinity s) = 0"
| "valof NaN = 0"

text \<open>\<open>isFinite x\<close>: \<open>x\<close> is a finite number, written with a mantissa that is not negative.\<close>

fun isFinite :: "f64 \<Rightarrow> bool" where
  "isFinite (Finite s m e) = (0 \<le> m)"
| "isFinite (Infinity s) = False"
| "isFinite NaN = False"

definition halfEven :: "real \<Rightarrow> int" where
  "halfEven y =
     (if y - of_int \<lfloor>y\<rfloor> < 1 / 2 \<or> (y - of_int \<lfloor>y\<rfloor> = 1 / 2 \<and> even \<lfloor>y\<rfloor>) then \<lfloor>y\<rfloor> else \<lfloor>y\<rfloor> + 1)"

definition expo :: "real \<Rightarrow> int" where
  "expo x = max (\<lfloor>log 2 x\<rfloor> - 52) (- 1074)"

definition rnd :: "bool \<Rightarrow> real \<Rightarrow> f64" where
  "rnd s x = (if x = 0 then Finite s 0 0 else pack s (halfEven (x / 2 powi expo x)) (expo x))"

definition rne :: "real \<Rightarrow> real" where
  "rne x = valof (rnd False x)"

text \<open>
  \<open>positive x v\<close>: the \<open>float64\<close> \<open>x\<close> is finite and positive and stands for the real
  \<open>v\<close>.  \<open>near k x y\<close>: the positive reals \<open>x\<close> and \<open>y\<close> differ by at most \<open>k\<close> roundings,
  each of a relative error of at most \<open>2\<^sup>-\<^sup>5\<^sup>2\<close>.
\<close>

definition positive :: "f64 \<Rightarrow> real \<Rightarrow> bool" where
  "positive x v = (\<exists>m e. x = Finite False m e \<and> 0 < m \<and> v = real_of_int m * 2 powi e)"

definition c52 :: real where
  "c52 = 1 + 1 / 2 ^ 52"

definition near :: "nat \<Rightarrow> real \<Rightarrow> real \<Rightarrow> bool" where
  "near k x y = (0 < x \<and> 0 < y \<and> x \<le> c52 ^ k * y \<and> y \<le> c52 ^ k * x)"

section \<open>Geometry for the cell-based transports: \<open>main.go\<close>\<close>

text \<open>
  \<open>calculateOptimalRenderSize\<close>, lines 22--74.  The successive assignments to
  \<open>renderWidth\<close> and \<open>renderHeight\<close> become successive bindings; the comparisons are
  those of the signed \<open>int\<close>, and \<open>termHeight - 2\<close> wraps like every \<open>int\<close> operation.
\<close>

definition calculateOptimalRenderSize ::
  "(f64 \<Rightarrow> goint) \<Rightarrow> goint \<Rightarrow> goint \<Rightarrow> goint \<Rightarrow> goint \<Rightarrow> goint \<times> goint" where
  "calculateOptimalRenderSize cvt imgWidth imgHeight termWidth termHeight =
     (let maxWidth = termWidth;
          maxHeight = termHeight - 2;
          maxWidth = (if maxWidth <s 10 then 10 else maxWidth);
          maxHeight = (if maxHeight <s 5 then 5 else maxHeight);
          imgAspect = f64_div (f64_of_int (sint imgWidth)) (f64_of_int (sint imgHeight));
          charAspect = f64_of_int 2;
          renderWidth = maxWidth;
          renderHeight =
            f64_to_int cvt (f64_div (f64_div (f64_of_int (sint renderWidth)) imgAspect) charAspect);
          fitHeight = maxHeight <s renderHeight;
          renderHeight = (if fitHeight then maxHeight else renderHeight);
          renderWidth =
            (if fitHeight
             then f64_to_int cvt
                    (f64_mul (f64_mul (f64_of_int (sint renderHeight)) imgAspect) charAspect)
             else renderWidth);
          renderWidth = (if maxWidth <s renderWidth then maxWidth else renderWidth);
          renderHeight = (if maxHeight <s renderHeight then maxHeight else renderHeight);
          renderWidth = (if renderWidth <s 10 then 10 else renderWidth);
          renderHeight = (if renderHeight <s 5 then 5 else renderHeight)
      in (renderWidth, renderHeight))"

text \<open>
  The same calculation on the mathematical integers, for an image of \<open>W\<close> by \<open>H\<close> pixels
  and the available space \<open>M\<close> by \<open>N\<close> (the clamped \<open>maxWidth\<close> and \<open>maxHeight\<close>), with
  every \<open>float64\<close> operation written as the exact operation followed by the rounding
  \<open>rne\<close>: \<open>heightFor\<close> is the height that fits the width \<open>M\<close>, \<open>widthFor\<close> the width
  that fits the height \<open>N\<close>.
\<close>

definition heightFor :: "int \<Rightarrow> int \<Rightarrow> int \<Rightarrow> int" where
  "heightFor W H M = \<lfloor>rne (rne (real_of_int M / rne (real_of_int W / real_of_int H)) / 2)\<rfloor>"

definition widthFor :: "int \<Rightarrow> int \<Rightarrow> int \<Rightarrow> int" where
  "widthFor W H N = \<lfloor>rne (rne (real_of_int N * rne (real_of_int W / real_of_int H)) * 2)\<rfloor>"

definition calcR :: "int \<Rightarrow> int \<Rightarrow> int \<Rightarrow> int \<Rightarrow> int \<times> int" where
  "calcR W H M N =
     (if N < heightFor W H M then (max 10 (min M (widthFor W H N)), N)
      else (M, max 5 (heightFor W H M)))"

section \<open>Brightness and contrast: \<open>internal/renderer/unicode.go\<close>\<close>

text \<open>
  \<open>adjustPixel\<close>, lines 254--269: brightness is added first, contrast is applied to the
  sum, the result is clamped and converted to \<open>uint8\<close>.
\<close>

definition adjustPixel :: "(f64 \<Rightarrow> uint8) \<Rightarrow> uint8 \<Rightarrow> f64 \<Rightarrow> f64 \<Rightarrow> uint8" where
  "adjustPixel cvt value brightness contrast =
     (let adjusted = f64_add (f64_of_int (uint value)) (f64_mul brightness (f64_of_int 255));
          adjusted =
            f64_mul
              (f64_add
                 (f64_mul (f64_sub (f64_div adjusted (f64_of_int 255)) (f64_const 1 2)) contrast)
                 (f64_const 1 2))
              (f64_of_int 255);
          adjusted =
            (if f64_lt adjusted (f64_of_int 0) then f64_of_int 0
             else if f64_lt (f64_of_int 255) adjusted then f64_of_int 255
             else adjusted)
      in f64_to_uint8 cvt adjusted)"

text \<open>
  The three stages that the specification names, each on its own: contrast around
  mid-gray, the additive brightness term, and the clamp to \<open>[0, 255]\<close>.
\<close>

definition contrastStage :: "f64 \<Rightarrow> f64 \<Rightarrow> f64" where
  "contrastStage k x =
     f64_mul
       (f64_add (f64_mul (f64_sub (f64_div x (f64_of_int 255)) (f64_const 1 2)) k) (f64_const 1 2))
       (f64_of_int 255)"

definition brightnessStage :: "f64 \<Rightarrow> f64 \<Rightarrow> f64" where
  "brightnessStage b x = f64_add x (f64_mul b (f64_of_int 255))"

definition clampStage :: "f64 \<Rightarrow> f64" where
  "clampStage x =
     (if f64_lt x (f64_of_int 0) then f64_of_int 0
      else if f64_lt (f64_of_int 255) x then f64_of_int 255
      else x)"

text \<open>The adjustment in the order of the specification: contrast first, brightness afterwards.\<close>

definition adjustPixelSpec :: "(f64 \<Rightarrow> uint8) \<Rightarrow> uint8 \<Rightarrow> f64 \<Rightarrow> f64 \<Rightarrow> uint8" where
  "adjustPixelSpec cvt value brightness contrast =
     f64_to_uint8 cvt
       (clampStage (brightnessStage brightness (contrastStage contrast (f64_of_int (uint value)))))"

text \<open>
  The adjustment on the real numbers, without any rounding, in the order of the code:
  the brightness term is added to the channel first and contrast is applied around
  mid-gray to the sum, which is \<open>(c + 255 * b - 127.5) * k + 127.5\<close>; and the clamp to
  \<open>[0, 255]\<close>.
\<close>

definition adjustedReal :: "uint8 \<Rightarrow> real \<Rightarrow> real \<Rightarrow> real" where
  "adjustedReal value b k = (((real_of_int (uint value) + b * 255) / 255 - 1 / 2) * k + 1 / 2) * 255"

definition clampReal :: "real \<Rightarrow> real" where
  "clampReal x = (if x < 0 then 0 else if 255 < x then 255 else x)"

section \<open>Palette quantization: \<open>internal/renderer/sixel.go\<close>\<close>

text \<open>\<open>sqrt\<close>, lines 107--117: ten Newton steps from \<open>z = x\<close>.\<close>

fun newton :: "nat \<Rightarrow> f64 \<Rightarrow> f64 \<Rightarrow> f64" where
  "newton 0 x z = z"
| "newton (Suc i) x z = newton i x (f64_div (f64_add z (f64_div x z)) (f64_of_int 2))"

definition sqrt_go :: "f64 \<Rightarrow> f64" where
  "sqrt_go x = (if f64_le x (f64_of_int 0) then f64_of_int 0 else newton 10 x x)"

text \<open>
  \<open>colorToPalette\<close>, lines 81--104.  The levels are \<open>int\<close>; the result is converted to
  \<open>uint8\<close>, which keeps the low eight bits.
\<close>

definition colorToPalette :: "(f64 \<Rightarrow> goint) \<Rightarrow> uint8 \<Rightarrow> uint8 \<Rightarrow> uint8 \<Rightarrow> uint8" where
  "colorToPalette cvt r g b =
     (let rNorm = f64_div (f64_of_int (uint r)) (f64_of_int 255);
          gNorm = f64_div (f64_of_int (uint g)) (f64_of_int 255);
          bNorm = f64_div (f64_of_int (uint b)) (f64_of_int 255);
          rLevel = f64_to_int cvt (f64_mul (sqrt_go rNorm) (f64_const 799 100));
          gLevel = f64_to_int cvt (f64_mul (sqrt_go gNorm) (f64_const 799 100));
          bLevel = f64_to_int cvt (f64_mul (sqrt_go bNorm) (f64_const 399 100));
          rLevel = (if 7 <s rLevel then 7 else rLevel);
          gLevel = (if 7 <s gLevel then 7 else gLevel);
          bLevel = (if 3 <s bLevel then 3 else bLevel)
      in ucast (rLevel * 32 + gLevel * 4 + bLevel))"

text \<open>
  The square root of a normalized channel, \<open>sqrt(float64(c) / 255.0)\<close>, and the levels
  that the 256 channel values are found to take: the red and green level rises at
  \<open>4, 16, 36, 64, 100, 144, 196\<close> and the blue level at \<open>17, 65, 145\<close>.  \<open>levelsOk c\<close>
  says that truncating the scaled root of channel \<open>c\<close> gives these levels; the two
  factors are the binary64 values of \<open>7.99\<close> and \<open>3.99\<close>.
\<close>

definition sqrtNorm :: "int \<Rightarrow> f64" where
  "sqrtNorm c = sqrt_go (f64_div (f64_of_int c) (f64_of_int 255))"

definition lev8 :: "int \<Rightarrow> int" where
  "lev8 c = (if c < 4 then 0 else if c < 16 then 1 else if c < 36 then 2 else if c < 64 then 3
             else if c < 100 then 4 else if c < 144 then 5 else if c < 196 then 6 else 7)"

definition lev4 :: "int \<Rightarrow> int" where
  "lev4 c = (if c < 17 then 0 else if c < 65 then 1 else if c < 145 then 2 else 3)"

definition levelsOk :: "int \<Rightarrow> bool" where
  "levelsOk c =
     (let z = sqrtNorm c
      in f64_trunc (f64_mul z (Finite False 4497970127836283 (- 49))) = Some (lev8 c)
         \<and> f64_trunc (f64_mul z (Finite False 2246170314151035 (- 49))) = Some (lev4 c))"

section \<open>Indexed-block encoder: \<open>internal/renderer/unicode.go\<close>\<close>

text \<open>
  \<open>cubeLevel\<close> is the expression \<open>int((c*5 + 127) / 255)\<close> of \<open>rgbToAnsi256\<close>.  The
  operands are \<open>uint8\<close>, so the product and the sum are taken modulo 256 before the
  division; only the quotient is converted to \<open>int\<close>.
\<close>

definition cubeLevel :: "uint8 \<Rightarrow> int" where
  "cubeLevel c = uint ((c * 5 + 127) div 255)"

text \<open>The clamp \<open>if r6 > 5 { r6 = 5 }\<close>.\<close>

definition clampLevel :: "int \<Rightarrow> int" where
  "clampLevel l = (if l > 5 then 5 else l)"

text \<open>
  \<open>rgbToAnsi256\<close>, lines 272--305.  The result is a Go \<open>int\<close>; every value it can take
  is below 256, so it is kept as a mathematical integer.
\<close>

definition rgbToAnsi256 :: "uint8 \<Rightarrow> uint8 \<Rightarrow> uint8 \<Rightarrow> int" where
  "rgbToAnsi256 red green blue =
     (if red = green \<and> green = blue then
        (if red < 8 then 16
         else if red > 248 then 231
         else 232 + uint (((red - 8) * 23) div 240))
      else
        (let r6 = clampLevel (cubeLevel red);
             g6 = clampLevel (cubeLevel green);
             b6 = clampLevel (cubeLevel blue)
         in 16 + (36 * r6) + (6 * g6) + b6))"

text \<open>The level the specification describes, on unbounded integers.\<close>

definition specLevel :: "uint8 \<Rightarrow> int" where
  "specLevel c = min 5 ((uint c * 5 + 127) div 255)"

section \<open>Geometry for the bitmap transport: \<open>main.go\<close>\<close>

text \<open>
  Go's \<open>/\<close> on \<open>int\<close> truncates towards zero.  The only divisor in the code below is
  the constant 6, so the division never panics.
\<close>

definition idiv :: "goint \<Rightarrow> goint \<Rightarrow> goint" where
  "idiv a b = word_of_int (sint a sdiv sint b)"

text \<open>\<open>calculateOptimalRenderSizeSixel\<close>, lines 79--91.  The image size is not used.\<close>

definition calculateOptimalRenderSizeSixel ::
  "goint \<Rightarrow> goint \<Rightarrow> goint \<Rightarrow> goint \<Rightarrow> goint \<times> goint" where
  "calculateOptimalRenderSizeSixel imgWidth imgHeight termWidth termHeight =
     (let pixelWidth = termWidth * 10;
          pixelHeight = termHeight * 19;
          pixelHeight = idiv pixelHeight 6 * 6
      in (pixelWidth, pixelHeight))"

section \<open>Unicode detection: \<open>internal/terminal/capability.go\<close>\<close>

text \<open>
  The process environment is a list of name/value pairs; \<open>os.Getenv\<close> returns the empty
  string for a variable that is not set.
\<close>

type_synonym environ = "(string \<times> string) list"

definition getenv :: "environ \<Rightarrow> string \<Rightarrow> string" where
  "getenv env name = (case map_of env name of None \<Rightarrow> [] | Some v \<Rightarrow> v)"

text \<open>
  \<open>strings.ToUpper\<close> on the ASCII letters; other bytes are left as they are (Go also maps
  letters beyond ASCII, which none of the markers searched for contains).
\<close>

definition upperChar :: "char \<Rightarrow> char" where
  "upperChar c =
     (let n = (of_char c :: nat) in if 97 \<le> n \<and> n \<le> 122 then char_of (n - 32) else c)"

definition toUpper :: "string \<Rightarrow> string" where
  "toUpper s = map upperChar s"

fun hasPrefix :: "string \<Rightarrow> string \<Rightarrow> bool" where
  "hasPrefix s [] = True"
| "hasPrefix [] (p # ps) = False"
| "hasPrefix (c # cs) (p # ps) = (c = p \<and> hasPrefix cs ps)"

text \<open>\<open>strings.Contains\<close>: the substring starts at some position of the string.\<close>

fun contains :: "string \<Rightarrow> string \<Rightarrow> bool" where
  "contains [] sub = (sub = [])"
| "contains (c # cs) sub = (hasPrefix (c # cs) sub \<or> contains cs sub)"

text \<open>\<open>detectUnicodeSupport\<close>, lines 255--278, with its three \<open>return\<close> statements.\<close>

definition detectUnicodeSupport :: "environ \<Rightarrow> bool" where
  "detectUnicodeSupport env =
     (let locale = getenv env ''LC_ALL'';
          locale = (if locale = [] then getenv env ''LC_CTYPE'' else locale);
          locale = (if locale = [] then getenv env ''LANG'' else locale)
      in if contains (toUpper locale) ''UTF-8'' \<or> contains (toUpper locale) ''UTF8''
         then True
         else if getenv env ''OS'' = ''Windows_NT'' then True
         else True)"

text \<open>
  The detection as the specification words it: some locale variable contains one of the
  two markers, or else the platform is Windows.
\<close>

definition unicodeSupportSpec :: "environ \<Rightarrow> bool" where
  "unicodeSupportSpec env =
     ((contains (getenv env ''LC_ALL'') ''UTF-8'' \<or> contains (getenv env ''LC_ALL'') ''UTF8''
       \<or> contains (getenv env ''LC_CTYPE'') ''UTF-8'' \<or> contains (getenv env ''LC_CTYPE'') ''UTF8''
       \<or> contains (getenv env ''LANG'') ''UTF-8'' \<or> contains (getenv env ''LANG'') ''UTF8'')
      \<or> getenv env ''OS'' = ''Windows_NT'')"

section \<open>Video frame source and playback loop: \<open>internal/decoder/video.go\<close>, \<open>main.go\<close>\<close>

text \<open>
  The counters of \<open>types.PlaybackStats\<close> that the playback loop reads and writes (the
  two derived floating-point fields \<open>DropRate\<close> and \<open>FPS\<close> are recomputed from them and
  are left out).
\<close>

record PlaybackStats =
  FramesRendered :: int
  FramesDropped :: int

text \<open>
  The state shared by the producer goroutine of \<open>GetFrameChannel\<close> and the consumer loop
  of \<open>playVideoFile\<close>: the buffered channel (capacity 5, a frame is identified by the
  index it was stamped with; \<open>closed\<close> once the producer has returned), the producer's
  \<open>frameIndex\<close>, and the consumer's statistics.  \<open>pulled\<close> is a ghost counter, not in
  the code: the number of complete frames read from the decoder's pipe.
\<close>

record playback =
  frameChan :: "int list"
  closed :: bool
  frameIndex :: int
  stats :: PlaybackStats
  pulled :: nat

definition chanCap :: nat where
  "chanCap = 5"

text \<open>
  One turn of the producer loop (lines 358--410) with a complete frame read from the
  pipe and \<open>stopChan\<close> open: the \<open>select\<close> sends the frame when the buffer has room and
  takes the \<open>default\<close> branch when it is full.  Both branches advance \<open>frameIndex\<close>;
  neither touches the statistics.
\<close>

definition produce :: "playback \<Rightarrow> playback" where
  "produce s =
     (if closed s then s
      else
        let s = s\<lparr>pulled := pulled s + 1\<rparr>
        in if length (frameChan s) < chanCap
           then s\<lparr>frameChan := frameChan s @ [frameIndex s], frameIndex := frameIndex s + 1\<rparr>
           else s\<lparr>frameIndex := frameIndex s + 1\<rparr>)"

text \<open>
  A turn of the producer loop in which the pipe ends inside a frame: \<open>io.ReadFull\<close>
  returns \<open>io.ErrUnexpectedEOF\<close> (or \<open>io.EOF\<close> at a frame boundary) and the goroutine
  returns, which closes the channel.  The incomplete frame is neither delivered nor
  counted; the branch \<open>n != frameSize\<close> after it cannot be reached, since \<open>ReadFull\<close>
  reports every short read as an error.
\<close>

definition shortRead :: "playback \<Rightarrow> playback" where
  "shortRead s = s\<lparr>closed := True\<rparr>"

text \<open>
  One turn of the consumer loop (lines 684--748) with a successful render: it receives
  the oldest frame and counts it as rendered.  With an empty buffer the consumer blocks
  and the state is unchanged.
\<close>

definition consume :: "playback \<Rightarrow> playback" where
  "consume s =
     (case frameChan s of
        [] \<Rightarrow> s
      | f # fs \<Rightarrow>
          s\<lparr>frameChan := fs,
            stats := (stats s)\<lparr>FramesRendered := FramesRendered (stats s) + 1\<rparr>\<rparr>)"

datatype turn = Produce | ShortRead | Consume

fun step :: "playback \<Rightarrow> turn \<Rightarrow> playback" where
  "step s Produce = produce s"
| "step s ShortRead = shortRead s"
| "step s Consume = consume s"

definition run :: "playback \<Rightarrow> turn list \<Rightarrow> playback" where
  "run s ts = foldl step s ts"

text \<open>The state at the start of playback: \<open>stats\<close> is freshly allocated, all counters 0.\<close>

definition initial :: playback where
  "initial = \<lparr>frameChan = [], closed = False, frameIndex = 0,
              stats = \<lparr>FramesRendered = 0, FramesDropped = 0\<rparr>, pulled = 0\<rparr>"


section \<open>Bitmap encoder: \<open>internal/renderer/sixel.go\<close>\<close>

text \<open>
  The output of the encoder is a Go string, a sequence of bytes.  \<open>decimal n\<close> is what
  \<open>fmt.Sprintf("%d", n)\<close> prints for a non-negative \<open>n\<close>: the ASCII digits, most
  significant first.
\<close>

function decimal :: "nat \<Rightarrow> uint8 list" where
  "decimal n =
     (if n < 10 then [48 + of_nat n] else decimal (n div 10) @ [48 + of_nat (n mod 10)])"
  by pat_completeness auto
termination
  by (relation "measure id") auto

declare decimal.simps [simp del]

text \<open>
  The verb \<open>%c\<close> prints its argument as a Unicode code point in UTF-8: one byte below
  128, two bytes from 128 to 255.
\<close>

definition fmtChar :: "uint8 \<Rightarrow> uint8 list" where
  "fmtChar c = (if c < 128 then [c] else [192 OR drop_bit 6 c, 128 OR (c AND 63)])"

text \<open>
  \<open>writeRLE\<close>, lines 242--253: the builder after the call.  The count is a run length
  that starts at 0 and is only ever incremented, so it is a natural number; 33 is \<open>!\<close>.
\<close>

definition writeRLE :: "uint8 list \<Rightarrow> uint8 \<Rightarrow> nat \<Rightarrow> uint8 list" where
  "writeRLE sb char count =
     (if count = 0 then sb
      else if count > 3 then sb @ [33] @ decimal count @ fmtChar char
      else sb @ replicate count char)"

text \<open>
  One turn of the loop over \<open>dy\<close> (lines 204--210) for column \<open>x\<close> of the band that
  starts at row \<open>y6\<close>: the bit \<open>1 << dy\<close> is set when the row exists and its pixel has
  the colour of the pass.  An index outside the pixel buffer panics: \<open>None\<close>.
\<close>

definition sixelBit ::
  "uint8 list \<Rightarrow> nat \<Rightarrow> nat \<Rightarrow> nat \<Rightarrow> uint8 \<Rightarrow> nat \<Rightarrow> uint8 \<Rightarrow> nat \<Rightarrow> uint8 option" where
  "sixelBit pixels width height y6 colorIdx x sixel dy =
     (if y6 + dy < height then
        (let i = (y6 + dy) * width + x
         in if i < length pixels
            then Some (if pixels ! i = colorIdx then sixel OR push_bit dy 1 else sixel)
            else None)
      else Some sixel)"

fun sixelBits ::
  "uint8 list \<Rightarrow> nat \<Rightarrow> nat \<Rightarrow> nat \<Rightarrow> uint8 \<Rightarrow> nat \<Rightarrow> uint8 \<Rightarrow> nat list \<Rightarrow> uint8 option" where
  "sixelBits pixels width height y6 colorIdx x sixel [] = Some sixel"
| "sixelBits pixels width height y6 colorIdx x sixel (dy # dys) =
     (case sixelBit pixels width height y6 colorIdx x sixel dy of
        None \<Rightarrow> None
      | Some sixel' \<Rightarrow> sixelBits pixels width height y6 colorIdx x sixel' dys)"

text \<open>\<open>sixelChar := byte(63 + sixel)\<close>, with \<open>dy\<close> running from 0 to 5.\<close>

definition sixelChar ::
  "uint8 list \<Rightarrow> nat \<Rightarrow> nat \<Rightarrow> nat \<Rightarrow> uint8 \<Rightarrow> nat \<Rightarrow> uint8 option" where
  "sixelChar pixels width height y6 colorIdx x =
     map_option (\<lambda>sixel. 63 + sixel) (sixelBits pixels width height y6 colorIdx x 0 [0..<6])"

text \<open>
  The variables of the run-length encoding in \<open>encodeSixel\<close>: the builder and the
  pending run.
\<close>

record rle =
  sb :: "uint8 list"
  repeatedSixel :: uint8
  sixelReps :: nat

text \<open>Lines 213--221: extend the pending run, or write it and start a new one.\<close>

definition rleStep :: "rle \<Rightarrow> uint8 \<Rightarrow> rle" where
  "rleStep st c =
     (if c = repeatedSixel st then st\<lparr>sixelReps := sixelReps st + 1\<rparr>
      else \<lparr>sb = writeRLE (sb st) (repeatedSixel st) (sixelReps st),
            repeatedSixel = c, sixelReps = 1\<rparr>)"

text \<open>
  The loop over the columns (lines 201--222).  Besides the state it returns the sixel
  characters it has seen, in order: the sequence that the run-length encoding encodes.
\<close>

fun columns ::
  "uint8 list \<Rightarrow> nat \<Rightarrow> nat \<Rightarrow> nat \<Rightarrow> uint8 \<Rightarrow> nat list \<Rightarrow> rle \<Rightarrow> (rle \<times> uint8 list) option"
  where
  "columns pixels width height y6 colorIdx [] st = Some (st, [])"
| "columns pixels width height y6 colorIdx (x # xs) st =
     (case sixelChar pixels width height y6 colorIdx x of
        None \<Rightarrow> None
      | Some c \<Rightarrow>
          (case columns pixels width height y6 colorIdx xs (rleStep st c) of
             None \<Rightarrow> None
           | Some (st', cs) \<Rightarrow> Some (st', c # cs)))"

text \<open>The final \<open>writeRLE\<close> of a pass (line 225).\<close>

definition flush :: "rle \<Rightarrow> uint8 list" where
  "flush st = writeRLE (sb st) (repeatedSixel st) (sixelReps st)"

text \<open>
  One colour pass over one band (lines 197--225): the run-length-encoded bytes written
  between the colour selector \<open>#idx\<close> and the carriage return \<open>$\<close>, together with the
  sixel sequence they encode.  The pending run starts as no repetitions of \<open>?\<close> (63).
\<close>

definition colorPass ::
  "uint8 list \<Rightarrow> nat \<Rightarrow> nat \<Rightarrow> nat \<Rightarrow> uint8 \<Rightarrow> (uint8 list \<times> uint8 list) option" where
  "colorPass pixels width height y6 colorIdx =
     (case columns pixels width height y6 colorIdx [0..<width]
             \<lparr>sb = [], repeatedSixel = 63, sixelReps = 0\<rparr> of
        None \<Rightarrow> None
      | Some (st, cs) \<Rightarrow> Some (flush st, cs))"

subsection \<open>The decoder and the runs of the specification\<close>

text \<open>
  The repository has no decoder.  \<open>rleDecode\<close> follows the specification's words: a
  \<open>!\<close> starts a repeat count, the decimal digits after it are the count, the next byte
  is repeated that many times, and every other byte is kept.  Input that ends inside a
  repeat is rejected.
\<close>

fun dstep :: "uint8 list \<times> nat option \<Rightarrow> uint8 \<Rightarrow> uint8 list \<times> nat option" where
  "dstep (out, None) b = (if b = 33 then (out, Some 0) else (out @ [b], None))"
| "dstep (out, Some n) b =
     (if 48 \<le> b \<and> b \<le> 57 then (out, Some (10 * n + unat (b - 48)))
      else (out @ replicate n b, None))"

definition rleDecode :: "uint8 list \<Rightarrow> uint8 list option" where
  "rleDecode bs =
     (case foldl dstep ([], None) bs of (out, None) \<Rightarrow> Some out | (out, Some n) \<Rightarrow> None)"

text \<open>
  The specification's rule for one run of \<open>n\<close> copies of \<open>c\<close>: four or more are written
  \<open>!<n><c>\<close>, fewer are written out.
\<close>

definition emitRun :: "uint8 \<times> nat \<Rightarrow> uint8 list" where
  "emitRun r = (case r of (c, n) \<Rightarrow> if 4 \<le> n then [33] @ decimal n @ [c] else replicate n c)"

definition expandRun :: "uint8 \<times> nat \<Rightarrow> uint8 list" where
  "expandRun r = (case r of (c, n) \<Rightarrow> replicate n c)"

text \<open>The maximal runs of a sequence, in order, each with its length.\<close>

fun groupRuns :: "uint8 list \<Rightarrow> (uint8 \<times> nat) list" where
  "groupRuns [] = []"
| "groupRuns (x # xs) =
     (case groupRuns xs of
        [] \<Rightarrow> [(x, 1)]
      | (y, n) # rs \<Rightarrow> if x = y then (y, n + 1) # rs else (x, 1) # (y, n) # rs)"

text \<open>The sixel characters: \<open>?\<close> (63) to \<open>~\<close> (126).\<close>

definition isSixel :: "uint8 \<Rightarrow> bool" where
  "isSixel c = (63 \<le> c \<and> c \<le> 126)"

section \<open>Facts about the indexed-block encoder\<close>

lemma cubeLevel_range: "0 \<le> cubeLevel c \<and> cubeLevel c \<le> 1"
proof -
  have "uint (c * 5 + 127) < 256"
    using uint_bounded [of "c * 5 + 127"] by simp
  then have "uint (c * 5 + 127) div 255 \<le> 1"
    by simp
  moreover have "0 \<le> uint (c * 5 + 127) div 255"
    by (simp add: pos_imp_zdiv_nonneg_iff)
  ultimately show ?thesis
    by (simp add: cubeLevel_def uint_div)
qed

lemma clampLevel_range: "0 \<le> l \<Longrightarrow> 0 \<le> clampLevel l \<and> clampLevel l \<le> 5"
  by (simp add: clampLevel_def)

lemma gray_step_range: "0 \<le> uint (((red - 8) * 23) div 240) \<and> uint (((red - 8) * 23) div 240) \<le> 1"
  for red :: uint8
proof -
  have "uint ((red - 8) * 23) < 256"
    using uint_bounded [of "(red - 8) * 23"] by simp
  then have "uint ((red - 8) * 23) div 240 \<le> 1"
    by simp
  moreover have "0 \<le> uint ((red - 8) * 23) div 240"
    by (simp add: pos_imp_zdiv_nonneg_iff)
  ultimately show ?thesis
    by (simp only: uint_div) simp
qed

text \<open>
  C10.  For every 8-bit red, green and blue the colour index computed by \<open>rgbToAnsi256\<close>
  lies between 16 and 255: it never names one of the sixteen system colours and never
  leaves the 256-colour palette, whatever the 8-bit arithmetic wraps to.
\<close>

theorem rgbToAnsi256_valid_index:
  "16 \<le> rgbToAnsi256 red green blue \<and> rgbToAnsi256 red green blue \<le> 255"
proof (cases "red = green \<and> green = blue")
  case True
  then have "rgbToAnsi256 red green blue =
      (if red < 8 then 16 else if red > 248 then 231
       else 232 + uint (((red - 8) * 23) div 240))"
    by (simp add: rgbToAnsi256_def)
  then show ?thesis
    using gray_step_range [of red] by auto
next
  case False
  have r: "0 \<le> clampLevel (cubeLevel red) \<and> clampLevel (cubeLevel red) \<le> 5"
    using cubeLevel_range [of red] by (simp add: clampLevel_range)
  have g: "0 \<le> clampLevel (cubeLevel green) \<and> clampLevel (cubeLevel green) \<le> 5"
    using cubeLevel_range [of green] by (simp add: clampLevel_range)
  have b: "0 \<le> clampLevel (cubeLevel blue) \<and> clampLevel (cubeLevel blue) \<le> 5"
    using cubeLevel_range [of blue] by (simp add: clampLevel_range)
  from False have c: "(red = green \<and> green = blue) = False"
    by blast
  have "rgbToAnsi256 red green blue =
      16 + (36 * clampLevel (cubeLevel red)) + (6 * clampLevel (cubeLevel green))
        + clampLevel (cubeLevel blue)"
    by (simp only: rgbToAnsi256_def c if_False Let_def)
  with r g b show ?thesis
    by linarith
qed

text \<open>
  C1 (fails on the code).  At pure red, \<open>(255, 0, 0)\<close>, the product \<open>255 * 5\<close> wraps to
  251 and \<open>251 + 127\<close> wraps to 122, so the red level is 0 and the index is 16, where
  the level of the specification is 5 and its index \<open>16 + 36 * 5 = 196\<close>.  The level
  computed at 128 is 1, so the computed level also decreases.
\<close>

theorem rgbToAnsi256_pure_red:
  "rgbToAnsi256 255 0 0 = 16 \<and> cubeLevel 128 = 1 \<and> cubeLevel 255 = 0 \<and> specLevel 255 = 5
   \<and> 16 + 36 * specLevel 255 + 6 * specLevel 0 + specLevel 0 = 196"
  by (simp add: rgbToAnsi256_def cubeLevel_def clampLevel_def specLevel_def)

section \<open>Facts about the bitmap-transport geometry\<close>

lemma sint_of_nat_64: "n < 2 ^ 63 \<Longrightarrow> sint (of_nat n :: goint) = int n"
proof -
  assume "n < 2 ^ 63"
  then have "int n < 2 ^ 63"
    by (metis of_nat_less_iff of_nat_numeral of_nat_power)
  then show ?thesis
    by (simp add: signed_of_nat signed_take_bit_int_eq_self)
qed

lemma sdiv6_of_nat_64:
  "n < 2 ^ 63 \<Longrightarrow> sint (of_nat n :: goint) sdiv sint (6 :: goint) = int (n div 6)"
  apply (subst sint_of_nat_64, assumption)
  apply (simp add: signed_divide_int_def sgn_if zdiv_int)
  done

text \<open>
  C6.  For a terminal of \<open>cw\<close> by \<open>ch\<close> cells (natural numbers whose products with 10
  and 19 fit Go's 64-bit \<open>int\<close>) the bitmap-transport geometry returns the pixel width
  \<open>cw * 10\<close> and the pixel height \<open>ch * 19\<close> rounded down to a multiple of 6; for 80 by
  25 cells it returns 800 by 474.
\<close>

theorem calculateOptimalRenderSizeSixel_value:
  assumes "cw * 10 < 2 ^ 63" and "ch * 19 < 2 ^ 63"
  shows "sint (fst (calculateOptimalRenderSizeSixel iw ih (of_nat cw) (of_nat ch))) = int (cw * 10)
       \<and> sint (snd (calculateOptimalRenderSizeSixel iw ih (of_nat cw) (of_nat ch)))
           = int (ch * 19 div 6 * 6)
       \<and> calculateOptimalRenderSizeSixel iw ih 80 25 = (800, 474)"
proof -
  have w: "(of_nat cw :: goint) * 10 = of_nat (cw * 10)"
    by simp
  have h: "(of_nat ch :: goint) * 19 = of_nat (ch * 19)"
    by simp
  have q: "ch * 19 div 6 * 6 < 2 ^ 63"
    using assms(2) by (meson div_times_less_eq_dividend le_less_trans)
  have "sint (of_nat (ch * 19) :: goint) sdiv sint (6 :: goint) = int (ch * 19 div 6)"
    using assms(2) by (rule sdiv6_of_nat_64)
  then have "idiv (of_nat (ch * 19)) 6 * 6 = (of_nat (ch * 19 div 6 * 6) :: goint)"
    by (simp add: idiv_def)
  then show ?thesis
    using assms q
    by (simp add: calculateOptimalRenderSizeSixel_def Let_def w h sint_of_nat_64 idiv_def
        signed_divide_int_def del: of_nat_mult)
qed

theorem calculateOptimalRenderSizeSixel_witness:
  "sint (fst (calculateOptimalRenderSizeSixel 160 90 (of_nat 120) (of_nat 40))) = int (120 * 10)
   \<and> sint (snd (calculateOptimalRenderSizeSixel 160 90 (of_nat 120) (of_nat 40)))
       = int (40 * 19 div 6 * 6)"
  using calculateOptimalRenderSizeSixel_value [of 120 40 160 90] by simp

section \<open>Facts about Unicode detection\<close>

text \<open>
  C9 (as stated, fails on the code).  In an environment whose only locale variable is
  \<open>LANG=C\<close> and that is not Windows, the specification's condition is false and
  \<open>detectUnicodeSupport\<close> still returns true.
\<close>

theorem detectUnicodeSupport_posix_counterexample:
  "detectUnicodeSupport [(''LANG'', ''C'')] \<noteq> unicodeSupportSpec [(''LANG'', ''C'')]"
  by (simp add: detectUnicodeSupport_def unicodeSupportSpec_def getenv_def)

text \<open>
  C9 (amended).  \<open>detectUnicodeSupport\<close> returns true in every environment: when the
  first non-empty of \<open>LC_ALL\<close>, \<open>LC_CTYPE\<close>, \<open>LANG\<close> contains a UTF-8 marker, when the
  platform is Windows, and in every other case as well.
\<close>

theorem detectUnicodeSupport_always: "detectUnicodeSupport env = True"
  by (simp add: detectUnicodeSupport_def Let_def)

section \<open>Facts about drop accounting\<close>

lemma produce_dropped: "FramesDropped (stats (produce s)) = FramesDropped (stats s)"
  by (simp add: produce_def Let_def)

lemma consume_dropped: "FramesDropped (stats (consume s)) = FramesDropped (stats s)"
  by (simp add: consume_def split: list.split)

lemma step_dropped: "FramesDropped (stats (step s t)) = FramesDropped (stats s)"
  by (cases t) (simp_all add: produce_dropped consume_dropped shortRead_def)

lemma run_dropped: "FramesDropped (stats (run s ts)) = FramesDropped (stats s)"
  unfolding run_def by (induction ts arbitrary: s) (simp_all add: step_dropped)

lemma step_frameIndex: "frameIndex s \<le> frameIndex (step s t)"
  by (cases t) (simp_all add: produce_def consume_def shortRead_def Let_def split: list.split)

lemma run_frameIndex: "frameIndex s \<le> frameIndex (run s ts)"
  unfolding run_def
proof (induction ts arbitrary: s)
  case Nil
  show ?case by simp
next
  case (Cons t ts)
  have "frameIndex s \<le> frameIndex (step s t)"
    by (rule step_frameIndex)
  also have "\<dots> \<le> frameIndex (foldl step (step s t) ts)"
    by (rule Cons.IH)
  finally show ?case by simp
qed

text \<open>
  C8 (fails on the code).  The producer reads six frames while the consumer is busy: five
  fill the channel and the sixth is dropped.  The pipe then ends inside the seventh frame,
  and the consumer renders the five frames delivered.  The frame index has advanced to 6
  and never went back, but \<open>FramesDropped\<close> is still 0, so rendered plus dropped is 5 and
  not the 6 frames produced.  No schedule ever changes \<open>FramesDropped\<close>.
\<close>

theorem dropped_frame_not_counted:
  "FramesRendered (stats (run initial [Produce, Produce, Produce, Produce, Produce, Produce,
      ShortRead, Consume, Consume, Consume, Consume, Consume])) = 5
   \<and> FramesDropped (stats (run initial [Produce, Produce, Produce, Produce, Produce, Produce,
      ShortRead, Consume, Consume, Consume, Consume, Consume])) = 0
   \<and> pulled (run initial [Produce, Produce, Produce, Produce, Produce, Produce,
      ShortRead, Consume, Consume, Consume, Consume, Consume]) = 6
   \<and> frameIndex (run initial [Produce, Produce, Produce, Produce, Produce, Produce,
      ShortRead, Consume, Consume, Consume, Consume, Consume]) = 6"
  by (simp add: run_def initial_def produce_def consume_def shortRead_def chanCap_def Let_def)

section \<open>Facts about the run-length encoding\<close>

lemma digit_small: "d < 10 \<Longrightarrow> 48 \<le> (48 + of_nat d :: uint8) \<and> (48 + of_nat d :: uint8) \<le> 57 \<and> unat ((48 + of_nat d :: uint8) - 48) = d"
  apply (simp add: word_le_nat_alt unat_word_ariths unat_of_nat)
  done

lemma dstep_digits: "foldl dstep (out, Some k) (decimal n) = (out, Some (k * 10 ^ length (decimal n) + n))"
proof (induction n arbitrary: k rule: decimal.induct)
  case (1 n)
  show ?case
  proof (cases "n < 10")
    case True
    then show ?thesis
      using digit_small [of n] by (simp add: decimal.simps [of n])
  next
    case False
    have m: "n mod 10 < 10" by simp
    from False show ?thesis
      using "1.IH" [of k] digit_small [OF m]
      by (simp add: decimal.simps [of n] algebra_simps)
  qed
qed


lemma dstep_literals:
  "c \<noteq> 33 \<Longrightarrow> foldl dstep (out, None) (replicate n c) = (out @ replicate n c, None)"
  by (induction n arbitrary: out) (simp_all add: replicate_app_Cons_same)

lemma isSixel_facts: "isSixel c \<Longrightarrow> c \<noteq> 33 \<and> \<not> (48 \<le> c \<and> c \<le> 57) \<and> c < 128"
  unfolding isSixel_def by (auto simp: word_le_nat_alt word_less_nat_alt)

lemma decode_emitRun:
  assumes "isSixel c"
  shows "foldl dstep (out, None) (emitRun (c, n)) = (out @ replicate n c, None)"
proof (cases "4 \<le> n")
  case True
  have "foldl dstep (out, None) ([33] @ decimal n @ [c])
      = dstep (foldl dstep (out, Some 0) (decimal n)) c"
    by simp
  also have "\<dots> = dstep (out, Some n) c"
    by (simp add: dstep_digits)
  also have "\<dots> = (out @ replicate n c, None)"
    using isSixel_facts [OF assms] by simp
  finally show ?thesis
    using True by (simp add: emitRun_def)
next
  case False
  then show ?thesis
    using isSixel_facts [OF assms] by (simp add: emitRun_def dstep_literals)
qed

lemma decode_runs:
  "\<forall>r \<in> set rs. isSixel (fst r) \<Longrightarrow>
   foldl dstep (out, None) (concat (map emitRun rs)) = (out @ concat (map expandRun rs), None)"
proof (induction rs arbitrary: out)
  case Nil
  show ?case by simp
next
  case (Cons r rs)
  obtain c n where r: "r = (c, n)" by (cases r)
  with Cons.prems have c: "isSixel c" by simp
  from Cons.prems have rest: "\<forall>r \<in> set rs. isSixel (fst r)" by simp
  show ?case
    using Cons.IH [OF rest] by (simp add: r decode_emitRun [OF c] expandRun_def)
qed

lemma groupRuns_head:
  "groupRuns xs = (y, n) # rs \<Longrightarrow> xs \<noteq> [] \<and> y = hd xs \<and> 0 < n"
  by (induction xs arbitrary: y n rs) (auto split: list.splits if_splits)

lemma groupRuns_expand: "concat (map expandRun (groupRuns xs)) = xs"
  by (induction xs) (auto simp: expandRun_def split: list.splits)

lemma groupRuns_chars: "r \<in> set (groupRuns xs) \<Longrightarrow> fst r \<in> set xs"
  by (induction xs arbitrary: r) (auto split: list.splits if_splits)

lemma groupRuns_replicate:
  assumes "xs = [] \<or> hd xs \<noteq> c"
  shows "groupRuns (replicate (Suc n) c @ xs) = (c, Suc n) # groupRuns xs"
proof (induction n)
  case 0
  show ?case
  proof (cases "groupRuns xs")
    case Nil
    then show ?thesis by simp
  next
    case (Cons r rs)
    obtain y m where r: "r = (y, m)" by (cases r)
    with Cons groupRuns_head [of xs y m rs] assms have "y \<noteq> c" by auto
    with Cons r show ?thesis by auto
  qed
next
  case (Suc n)
  then show ?case by simp
qed

lemma writeRLE_emitRun: "c < 128 \<Longrightarrow> writeRLE buf c n = buf @ emitRun (c, n)"
  by (simp add: writeRLE_def emitRun_def fmtChar_def)

lemma rle_runs:
  assumes "repeatedSixel st < 128" and "\<forall>c \<in> set cs. c < 128"
  shows "flush (foldl rleStep st cs)
       = sb st @ concat (map emitRun (groupRuns (replicate (sixelReps st) (repeatedSixel st) @ cs)))"
  using assms
proof (induction cs arbitrary: st)
  case Nil
  show ?case
  proof (cases "sixelReps st")
    case 0
    then show ?thesis by (simp add: flush_def writeRLE_def)
  next
    case (Suc k)
    have "groupRuns (replicate (Suc k) (repeatedSixel st) @ []) = [(repeatedSixel st, Suc k)]"
      by (subst groupRuns_replicate) simp_all
    then have "groupRuns (replicate (sixelReps st) (repeatedSixel st) @ [])
        = [(repeatedSixel st, sixelReps st)]"
      by (simp only: Suc)
    then show ?thesis
      using Nil.prems(1) by (simp add: flush_def writeRLE_emitRun del: replicate.simps)
  qed
next
  case (Cons c cs)
  let ?r = "repeatedSixel st" and ?n = "sixelReps st"
  from Cons.prems have rest: "\<forall>c \<in> set cs. c < 128" and c: "c < 128"
    by simp_all
  show ?case
  proof (cases "c = ?r")
    case True
    let ?st' = "st\<lparr>sixelReps := ?n + 1\<rparr>"
    have st': "rleStep st c = ?st'"
      using True by (simp add: rleStep_def)
    have "flush (foldl rleStep ?st' cs)
        = sb ?st' @ concat (map emitRun (groupRuns
            (replicate (sixelReps ?st') (repeatedSixel ?st') @ cs)))"
      using Cons.prems(1) rest by (intro Cons.IH) simp_all
    moreover have "replicate (sixelReps ?st') (repeatedSixel ?st') @ cs = replicate ?n ?r @ c # cs"
      using True by (simp add: replicate_app_Cons_same)
    moreover have "sb ?st' = sb st"
      by simp
    ultimately have "flush (foldl rleStep ?st' cs)
        = sb st @ concat (map emitRun (groupRuns (replicate ?n ?r @ c # cs)))"
      by (simp only:)
    then show ?thesis
      by (simp only: foldl_Cons st')
  next
    case False
    let ?st' = "\<lparr>sb = writeRLE (sb st) ?r ?n, repeatedSixel = c, sixelReps = 1\<rparr>"
    have st': "rleStep st c = ?st'"
      using False by (simp add: rleStep_def)
    have "flush (foldl rleStep ?st' cs)
        = sb ?st' @ concat (map emitRun (groupRuns
            (replicate (sixelReps ?st') (repeatedSixel ?st') @ cs)))"
      using c rest by (intro Cons.IH) simp_all
    then have ih: "flush (foldl rleStep ?st' cs)
        = sb st @ emitRun (?r, ?n) @ concat (map emitRun (groupRuns (c # cs)))"
      using Cons.prems(1) by (simp add: writeRLE_emitRun del: groupRuns.simps)
    have "emitRun (?r, ?n) @ concat (map emitRun (groupRuns (c # cs)))
        = concat (map emitRun (groupRuns (replicate ?n ?r @ c # cs)))"
    proof (cases ?n)
      case 0
      then show ?thesis
        by (simp add: emitRun_def del: groupRuns.simps)
    next
      case (Suc k)
      have "groupRuns (replicate (Suc k) ?r @ c # cs) = (?r, Suc k) # groupRuns (c # cs)"
        using False by (intro groupRuns_replicate) simp
      then show ?thesis
        by (simp only: Suc list.map concat.simps)
    qed
    with ih show ?thesis
      by (simp only: foldl_Cons st')
  qed
qed

lemma rle_decode:
  assumes "isSixel (repeatedSixel st)" and "\<forall>c \<in> set cs. isSixel c"
  shows "foldl dstep (out, None) (concat (map emitRun (groupRuns
            (replicate (sixelReps st) (repeatedSixel st) @ cs))))
       = (out @ replicate (sixelReps st) (repeatedSixel st) @ cs, None)"
proof -
  let ?xs = "replicate (sixelReps st) (repeatedSixel st) @ cs"
  have "\<forall>c \<in> set ?xs. isSixel c"
    using assms by auto
  then have "\<forall>r \<in> set (groupRuns ?xs). isSixel (fst r)"
    using groupRuns_chars by blast
  then show ?thesis
    by (simp only: decode_runs groupRuns_expand)
qed


lemma sixelBit_small:
  assumes "sixelBit pixels width height y6 colorIdx x sixel dy = Some sixel'"
    and "take_bit 6 sixel = sixel" and "dy < 6"
  shows "take_bit 6 sixel' = sixel'"
proof -
  from \<open>dy < 6\<close> have "dy = 0 \<or> dy = 1 \<or> dy = 2 \<or> dy = 3 \<or> dy = 4 \<or> dy = 5"
    by arith
  then have "take_bit 6 (push_bit dy (1 :: uint8)) = push_bit dy 1"
    by (elim disjE) simp_all
  then have "take_bit 6 (sixel OR push_bit dy 1) = sixel OR push_bit dy 1"
    using assms(2) by (simp only: take_bit_or)
  with assms(1,2) show ?thesis
    by (auto simp: sixelBit_def Let_def split: if_splits)
qed

lemma sixelBits_small:
  "sixelBits pixels width height y6 colorIdx x sixel dys = Some sixel' \<Longrightarrow>
   take_bit 6 sixel = sixel \<Longrightarrow> \<forall>dy \<in> set dys. dy < 6 \<Longrightarrow> take_bit 6 sixel' = sixel'"
proof (induction dys arbitrary: sixel)
  case Nil
  then show ?case by simp
next
  case (Cons dy dys)
  from Cons.prems(1) obtain s where
    s: "sixelBit pixels width height y6 colorIdx x sixel dy = Some s"
    and r: "sixelBits pixels width height y6 colorIdx x s dys = Some sixel'"
    by (auto split: option.splits)
  have "take_bit 6 s = s"
    using s Cons.prems(2,3) by (intro sixelBit_small [OF s]) simp_all
  with r Cons.prems(3) show ?case
    by (intro Cons.IH [of s]) simp_all
qed

lemma sixelChar_isSixel:
  assumes "sixelChar pixels width height y6 colorIdx x = Some c"
  shows "isSixel c"
proof -
  from assms obtain s where
    s: "sixelBits pixels width height y6 colorIdx x 0 [0..<6] = Some s" and c: "c = 63 + s"
    by (auto simp: sixelChar_def)
  have "take_bit 6 s = s"
    by (rule sixelBits_small [OF s]) simp_all
  moreover have "s AND mask 6 < 2 ^ 6"
    by (rule and_mask_less_size) (simp add: word_size)
  ultimately have "s < 64"
    by (simp add: take_bit_eq_mask)
  then have "unat s < 64"
    by (simp add: word_less_nat_alt)
  then have "unat (63 + s) = 63 + unat s"
    by (simp add: unat_word_ariths)
  with \<open>unat s < 64\<close> show ?thesis
    by (simp add: isSixel_def c word_le_nat_alt)
qed

lemma columns_loop:
  "columns pixels width height y6 colorIdx xs st = Some (st', cs) \<Longrightarrow>
   st' = foldl rleStep st cs \<and> (\<forall>c \<in> set cs. isSixel c) \<and> length cs = length xs"
proof (induction xs arbitrary: st st' cs)
  case Nil
  then show ?case by simp
next
  case (Cons x xs)
  from Cons.prems obtain c cs' where
    c: "sixelChar pixels width height y6 colorIdx x = Some c"
    and r: "columns pixels width height y6 colorIdx xs (rleStep st c) = Some (st', cs')"
    and cs: "cs = c # cs'"
    by (auto split: option.splits)
  from Cons.IH [OF r] sixelChar_isSixel [OF c] show ?case
    by (simp add: cs)
qed

lemma pixel_index:
  assumes "r < height" and "x < width"
  shows "r * width + x < width * (height :: nat)"
proof -
  have "r * width + x < r * width + width"
    using assms(2) by simp
  also have "\<dots> = Suc r * width"
    by simp
  also have "\<dots> \<le> height * width"
    using assms(1) by (intro mult_le_mono1) simp
  finally show ?thesis
    by (simp add: mult.commute)
qed

lemma sixelBits_returns:
  assumes "length pixels = width * height" and "x < width"
  shows "\<exists>s. sixelBits pixels width height y6 colorIdx x sixel dys = Some s"
proof (induction dys arbitrary: sixel)
  case Nil
  show ?case by simp
next
  case (Cons dy dys)
  have "\<exists>s. sixelBit pixels width height y6 colorIdx x sixel dy = Some s"
    using assms pixel_index [of "y6 + dy" height x width]
    by (simp add: sixelBit_def Let_def)
  then obtain s where "sixelBit pixels width height y6 colorIdx x sixel dy = Some s" ..
  with Cons.IH [of s] show ?case
    by simp
qed

lemma columns_returns:
  assumes "length pixels = width * height" and "\<forall>x \<in> set xs. x < width"
  shows "\<exists>st' cs. columns pixels width height y6 colorIdx xs st = Some (st', cs)"
  using assms(2)
proof (induction xs arbitrary: st)
  case Nil
  show ?case by simp
next
  case (Cons x xs)
  from Cons.prems have "x < width" by simp
  from sixelBits_returns [OF assms(1) this] obtain s where
    "sixelBits pixels width height y6 colorIdx x 0 [0..<6] = Some s" by blast
  then have c: "sixelChar pixels width height y6 colorIdx x = Some (63 + s)"
    by (simp add: sixelChar_def)
  from Cons.prems have "\<forall>x \<in> set xs. x < width" by simp
  from Cons.IH [OF this, of "rleStep st (63 + s)"] c show ?case
    by auto
qed

text \<open>
  C3.  A colour pass over a band of a pixel buffer of \<open>width * height\<close> entries returns:
  it yields the run-length-encoded bytes \<open>out\<close> and the \<open>width\<close> sixel characters \<open>cs\<close>
  of the band.  \<open>out\<close> is the concatenation, over the maximal runs of \<open>cs\<close>, of
  \<open>!<count><char>\<close> for a run of four or more and of the repeated character for a
  shorter run, and decoding \<open>out\<close> gives back \<open>cs\<close> exactly.
\<close>

theorem colorPass_roundtrip:
  assumes "length pixels = width * height"
  shows "\<exists>out cs. colorPass pixels width height y6 colorIdx = Some (out, cs)
           \<and> length cs = width
           \<and> out = concat (map emitRun (groupRuns cs))
           \<and> rleDecode out = Some cs"
proof -
  let ?st0 = "\<lparr>sb = [], repeatedSixel = 63, sixelReps = 0\<rparr>"
  have "\<forall>x \<in> set [0..<width]. x < width"
    by simp
  from columns_returns [OF assms this] obtain st' cs where
    cols: "columns pixels width height y6 colorIdx [0..<width] ?st0 = Some (st', cs)"
    by blast
  from columns_loop [OF cols] have st': "st' = foldl rleStep ?st0 cs"
    and six: "\<forall>c \<in> set cs. isSixel c" and len: "length cs = width"
    by simp_all
  have small: "\<forall>c \<in> set cs. c < 128"
    using six isSixel_facts by blast
  have start: "isSixel (repeatedSixel ?st0)"
    by (simp add: isSixel_def)
  have "flush (foldl rleStep ?st0 cs)
      = sb ?st0 @ concat (map emitRun (groupRuns
          (replicate (sixelReps ?st0) (repeatedSixel ?st0) @ cs)))"
    using small by (intro rle_runs) simp_all
  then have out: "flush st' = concat (map emitRun (groupRuns cs))"
    by (simp add: st')
  have "foldl dstep ([], None) (concat (map emitRun (groupRuns
          (replicate (sixelReps ?st0) (repeatedSixel ?st0) @ cs))))
      = ([] @ replicate (sixelReps ?st0) (repeatedSixel ?st0) @ cs, None)"
    using start six by (rule rle_decode)
  then have dec: "rleDecode (concat (map emitRun (groupRuns cs))) = Some cs"
    by (simp add: rleDecode_def)
  have "colorPass pixels width height y6 colorIdx = Some (flush st', cs)"
    by (simp add: colorPass_def cols)
  with out dec len show ?thesis
    by simp
qed

theorem colorPass_roundtrip_witness:
  "length [1, 1, 1, 1, 1, 2, 1, 1, 1, 1, 1, 2 :: uint8] = 6 * 2
   \<and> (\<exists>out cs. colorPass [1, 1, 1, 1, 1, 2, 1, 1, 1, 1, 1, 2] 6 2 0 1 = Some (out, cs)
           \<and> length cs = 6
           \<and> out = concat (map emitRun (groupRuns cs))
           \<and> rleDecode out = Some cs)"
  using colorPass_roundtrip [of "[1, 1, 1, 1, 1, 2, 1, 1, 1, 1, 1, 2]" 6 2 0 1] by simp

section \<open>Evaluating \<open>float64\<close> expressions\<close>

text \<open>
  Equations for evaluation: shifts by repeated doubling, the bit length by recursion on
  the binary numeral, quotient and remainder from one division.
\<close>

lemma scale2_code [code]: "scale2 m k = (if k \<le> 0 then m else scale2 (2 * m) (k - 1))"
proof (cases "k \<le> 0")
  case True
  then show ?thesis by (simp add: scale2_def)
next
  case False
  then have "nat k = Suc (nat (k - 1))" by simp
  then have "(2::int) ^ nat k = 2 * 2 ^ nat (k - 1)" by simp
  with False show ?thesis by (simp add: scale2_def)
qed

lemma bitlen_code [code]:
  "bitlen 0 = 0"
  "bitlen (Int.Neg n) = 0"
  "bitlen (Int.Pos Num.One) = 1"
  "bitlen (Int.Pos (Num.Bit0 n)) = bitlen (Int.Pos n) + 1"
  "bitlen (Int.Pos (Num.Bit1 n)) = bitlen (Int.Pos n) + 1"
proof -
  show "bitlen 0 = 0" by simp
  show "bitlen (Int.Neg n) = 0" by (subst compute_bitlen) simp
  show "bitlen (Int.Pos Num.One) = 1" by (subst compute_bitlen) simp
  have "bitlen (Int.Pos (Num.Bit0 n)) = bitlen (Int.Pos (Num.Bit0 n) div 2) + 1"
    by (subst compute_bitlen) simp
  then show "bitlen (Int.Pos (Num.Bit0 n)) = bitlen (Int.Pos n) + 1" by simp
  have "bitlen (Int.Pos (Num.Bit1 n)) = bitlen (Int.Pos (Num.Bit1 n) div 2) + 1"
    by (subst compute_bitlen) simp
  then show "bitlen (Int.Pos (Num.Bit1 n)) = bitlen (Int.Pos n) + 1" by simp
qed

lemma quotRem_code [code]:
  "quotRem (Int.Pos m) (Int.Pos n) = divmod m n"
  "quotRem 0 D = (0, 0)"
  "quotRem (Int.Neg m) D = (Int.Neg m div D, Int.Neg m mod D)"
  "quotRem (Int.Pos m) 0 = (0, Int.Pos m)"
  "quotRem (Int.Pos m) (Int.Neg n) = (Int.Pos m div Int.Neg n, Int.Pos m mod Int.Neg n)"
proof -
  show "quotRem (Int.Pos m) (Int.Pos n) = divmod m n"
    unfolding quotRem_def divmod_def Int.Pos_def by (rule refl)
  show "quotRem 0 D = (0, 0)"
    unfolding quotRem_def by simp
  show "quotRem (Int.Neg m) D = (Int.Neg m div D, Int.Neg m mod D)"
    unfolding quotRem_def by (rule refl)
  show "quotRem (Int.Pos m) 0 = (0, Int.Pos m)"
    unfolding quotRem_def by simp
  show "quotRem (Int.Pos m) (Int.Neg n) = (Int.Pos m div Int.Neg n, Int.Pos m mod Int.Neg n)"
    unfolding quotRem_def by (rule refl)
qed

text \<open>The constants of the source as binary64 values.\<close>

lemma const_values:
  "f64_of_int 0 = Finite False 0 0"
  "f64_of_int 2 = Finite False 1 1"
  "f64_of_int 255 = Finite False 255 0"
  "f64_const 799 100 = Finite False 4497970127836283 (- 49)"
  "f64_const 399 100 = Finite False 2246170314151035 (- 49)"
  by code_simp+

lemma newton_code [code]:
  "newton 0 x z = z"
  "newton (Suc i) x z = newton i x (f64_div (f64_add z (f64_div x z)) (Finite False 1 1))"
  by (simp_all add: const_values)

lemma sqrt_go_code [code]:
  "sqrt_go x = (if f64_le x (Finite False 0 0) then Finite False 0 0 else newton 10 x x)"
  by (simp add: sqrt_go_def const_values)

section \<open>The software rounding is the rounding of IEEE 754\<close>

text \<open>
  The sticky quotient of \<open>roundRat\<close> decides like the exact quotient, so \<open>roundRat\<close> is
  the rounding \<open>rnd\<close> of the real number \<open>n / d * 2\<^sup>e\<close>; what follows are the
  consequences used below: a result in the normal range is within a relative error of
  \<open>2\<^sup>-\<^sup>5\<^sup>3\<close>, and an integer below \<open>2\<^sup>5\<^sup>3\<close> is converted exactly.
\<close>

lemma floor_log2: "0 < x \<Longrightarrow> (\<lfloor>log 2 x\<rfloor> = k) = (2 powi k \<le> x \<and> x < 2 powi (k + 1))"
  using floor_log_eq_powr_iff [of x 2 k] powr_real_of_int' [of 2 k] powr_real_of_int' [of 2 "k + 1"]
  by simp

lemma quotSticky_exact:
  assumes "0 < D" "N mod D = 0"
  shows "real_of_int (quotSticky N D) = 2 * real_of_int N / real_of_int D"
proof -
  from assms have "N = D * (N div D)" by auto
  then have "real_of_int N = real_of_int D * real_of_int (N div D)"
    by (metis of_int_mult)
  with assms show ?thesis
    by (simp add: quotSticky_def sticky_def quotRem_def)
qed

lemma quotSticky_inexact:
  assumes "0 < D" "N mod D \<noteq> 0"
  shows "odd (quotSticky N D)"
    and "real_of_int (quotSticky N D) - 1 < 2 * real_of_int N / real_of_int D"
    and "2 * real_of_int N / real_of_int D < real_of_int (quotSticky N D) + 1"
proof -
  have q: "quotSticky N D = 2 * (N div D) + 1"
    using assms by (simp add: quotSticky_def sticky_def quotRem_def)
  show "odd (quotSticky N D)" by (simp add: q)
  have "0 \<le> N mod D" "N mod D < D"
    using assms by simp_all
  with assms have r: "0 < N mod D" "N mod D < D"
    by linarith+
  have "N = D * (N div D) + N mod D" by simp
  then have "real_of_int N = real_of_int D * real_of_int (N div D) + real_of_int (N mod D)"
    by (metis of_int_mult of_int_add)
  then have n: "real_of_int N / real_of_int D = real_of_int (N div D) + real_of_int (N mod D) / real_of_int D"
    using assms by (simp add: field_simps)
  have "0 < real_of_int (N mod D) / real_of_int D" "real_of_int (N mod D) / real_of_int D < 1"
    using r assms by simp_all
  with n show "real_of_int (quotSticky N D) - 1 < 2 * real_of_int N / real_of_int D"
    and "2 * real_of_int N / real_of_int D < real_of_int (quotSticky N D) + 1"
    by (simp_all add: q)
qed

lemma halfEven_nearestEven:
  fixes q :: int and t :: nat and X :: real
  assumes t: "2 \<le> t"
    and X: "X = real_of_int q \<or> (odd q \<and> real_of_int q - 1 < X \<and> X < real_of_int q + 1)"
  shows "halfEven (X / 2 ^ t) = nearestEven (q div 2 ^ t) (q mod 2 ^ t) (2 ^ (t - 1))"
proof -
  define P :: int where "P = 2 ^ t"
  define h where "h = q div P"
  define r where "r = q mod P"
  define half :: int where "half = 2 ^ (t - 1)"
  define y where "y = X / real_of_int P"
  define d where "d = X - real_of_int q"
  have "(2::int) ^ t = 2 ^ Suc (t - 1)" using t by simp
  then have P: "P = 2 * half" by (simp add: P_def half_def)
  have half: "0 < half" by (simp add: half_def)
  have "(2::int) ^ (t - 1) = 2 ^ Suc (t - 2)" using t by (simp add: Suc_diff_Suc numeral_2_eq_2)
  then have evh: "even half" by (simp add: half_def)
  have r: "0 \<le> r" "r < P" using half P by (simp_all add: r_def)
  have "q = h * P + r" by (simp add: h_def r_def)
  then have "real_of_int q = real_of_int h * real_of_int P + real_of_int r"
    by (metis of_int_mult of_int_add)
  then have "X = real_of_int h * real_of_int P + (real_of_int r + d)"
    by (simp add: d_def)
  moreover have Ppos: "0 < real_of_int P" using half P by simp
  ultimately have y: "y = real_of_int h + (real_of_int r + d) / real_of_int P"
    by (simp add: y_def field_simps)
  have Ph: "real_of_int P = 2 * real_of_int half" using P by simp
  have hpos: "0 < real_of_int half" using half by simp
  from X consider (exact) "d = 0" | (inexact) "odd q" "- 1 < d" "d < 1"
    by (auto simp add: d_def)
  then have "\<lfloor>y\<rfloor> = h \<and> (y - real_of_int h < 1 / 2) = (r < half) \<and> (y - real_of_int h = 1 / 2) = (r = half)"
  proof cases
    case exact
    have f: "y - real_of_int h = real_of_int r / real_of_int P"
      using y exact by simp
    have "0 \<le> real_of_int r / real_of_int P" "real_of_int r / real_of_int P < 1"
      using r Ppos by simp_all
    then have "\<lfloor>y\<rfloor> = h" using f by (intro floor_unique) linarith+
    moreover have "(real_of_int r / real_of_int P < 1 / 2) = (r < half)"
      using hpos by (simp add: Ph field_simps)
    moreover have "(real_of_int r / real_of_int P = 1 / 2) = (r = half)"
      using hpos by (auto simp add: Ph field_simps)
    ultimately show ?thesis using f by simp
  next
    case inexact
    have "even P" using P by simp
    then have "odd r" using inexact(1) by (simp add: r_def dvd_mod_iff)
    then have rh: "r \<noteq> half" using evh by auto
    have r1: "1 \<le> r" using \<open>odd r\<close> r(1) by (cases "r = 0") auto
    have f: "y - real_of_int h = (real_of_int r + d) / real_of_int P"
      using y by simp
    have "0 < real_of_int r + d" using r1 inexact(2) by linarith
    then have lo: "0 < (real_of_int r + d) / real_of_int P" using Ppos by simp
    have "r + 1 \<le> P" using r(2) by simp
    then have "real_of_int r + 1 \<le> real_of_int P" by (metis of_int_le_iff of_int_add of_int_1)
    then have "real_of_int r + d < real_of_int P" using inexact(3) by linarith
    then have hi: "(real_of_int r + d) / real_of_int P < 1" using Ppos by simp
    have fl: "\<lfloor>y\<rfloor> = h" using f lo hi by (intro floor_unique) linarith+
    have c1: "(real_of_int r + d) / real_of_int P < 1 / 2" if "r < half"
    proof -
      from that have "r + 1 \<le> half" by simp
      then have "real_of_int r + 1 \<le> real_of_int half" by (metis of_int_le_iff of_int_add of_int_1)
      then have "real_of_int r + d < real_of_int half" using inexact(3) by linarith
      then show ?thesis using hpos by (simp add: Ph field_simps)
    qed
    have c2: "1 / 2 < (real_of_int r + d) / real_of_int P" if "half < r"
    proof -
      from that have "half \<le> r - 1" by simp
      then have "real_of_int half \<le> real_of_int r - 1" by (metis of_int_le_iff of_int_diff of_int_1)
      then have "real_of_int half < real_of_int r + d" using inexact(2) by linarith
      then show ?thesis using hpos by (simp add: Ph field_simps)
    qed
    have "(y - real_of_int h < 1 / 2) = (r < half)"
      using c1 c2 rh f by (cases "r < half") (auto simp add: not_less le_less)
    moreover have "(y - real_of_int h = 1 / 2) = (r = half)"
      using c1 c2 rh f by (cases "r < half") (auto simp add: not_less le_less)
    ultimately show ?thesis using fl by simp
  qed
  then show ?thesis
    unfolding halfEven_def nearestEven_def y_def [symmetric] h_def [symmetric] r_def [symmetric]
      half_def [symmetric] P_def [symmetric]
    by (simp add: y_def P_def)
qed

lemma powi_nat: "0 \<le> k \<Longrightarrow> (2::real) powi k = 2 ^ nat k"
  by (simp add: power_int_def)

lemma roundSticky_rnd:
  assumes D: "0 < D" and N: "2 ^ 54 * D \<le> N"
  shows "roundSticky s (quotSticky N D) xe = rnd s (2 * real_of_int N / real_of_int D * 2 powi xe)"
proof -
  define q where "q = quotSticky N D"
  define X where "X = 2 * real_of_int N / real_of_int D"
  define bl where "bl = bitlen q"
  define t where "t = max (bl - 53) (- 1074 - xe)"
  define x where "x = X * 2 powi xe"
  have "(2 ^ 54 * D) div D \<le> N div D"
    using N D by (intro zdiv_mono1)
  then have Q: "2 ^ 54 \<le> N div D" using D by simp
  have q55: "2 ^ 55 \<le> q"
    using Q by (simp add: q_def quotSticky_def sticky_def quotRem_def)
  then have qpos: "0 < q" by simp
  have X: "X = real_of_int q \<or> (odd q \<and> real_of_int q - 1 < X \<and> X < real_of_int q + 1)"
    using quotSticky_exact [OF D, of N] quotSticky_inexact [OF D, of N]
    by (cases "N mod D = 0") (auto simp add: q_def X_def)
  have bl56: "56 \<le> bl"
    unfolding bl_def using q55 by (simp add: bitlen_ge_iff_power)
  have t3: "3 \<le> t" using bl56 by (simp add: t_def)
  have bnd: "2 ^ nat (bl - 1) \<le> q" "q < 2 ^ nat bl"
    using bitlen_bounds [OF qpos] by (simp_all add: bl_def)
  have ev: "even ((2::int) ^ nat (bl - 1))" using bl56 by simp
  have Xlo: "2 ^ nat (bl - 1) \<le> X"
  proof (cases "X = real_of_int q")
    case True
    then show ?thesis using bnd(1) by (metis of_int_le_iff of_int_power of_int_numeral)
  next
    case False
    with X have o: "odd q" "real_of_int q - 1 < X" by auto
    from o(1) ev have "q \<noteq> 2 ^ nat (bl - 1)" by auto
    with bnd(1) have "2 ^ nat (bl - 1) \<le> q - 1" by simp
    then have "real_of_int (2 ^ nat (bl - 1)) \<le> real_of_int (q - 1)" by (simp only: of_int_le_iff)
    then show ?thesis using o(2) by simp
  qed
  have Xhi: "X < 2 ^ nat bl"
  proof -
    from bnd(2) have "q + 1 \<le> 2 ^ nat bl" by simp
    then have "real_of_int (q + 1) \<le> real_of_int (2 ^ nat bl)" by (simp only: of_int_le_iff)
    then have "real_of_int q + 1 \<le> 2 ^ nat bl" by simp
    moreover have "X < real_of_int q + 1" using X by auto
    ultimately show ?thesis by linarith
  qed
  have Xpos: "0 < X" by (rule less_le_trans [OF _ Xlo]) simp
  have xpos: "0 < x" using Xpos by (simp add: x_def)
  have p1: "(2::real) powi (bl - 1 + xe) = 2 ^ nat (bl - 1) * 2 powi xe"
    using bl56 by (simp add: power_int_add powi_nat)
  have p2: "(2::real) powi (bl - 1 + xe + 1) = 2 ^ nat bl * 2 powi xe"
    using bl56 by (simp add: power_int_add powi_nat)
  have "2 powi (bl - 1 + xe) \<le> x \<and> x < 2 powi (bl - 1 + xe + 1)"
    unfolding p1 p2 x_def using Xlo Xhi by simp
  then have lg: "\<lfloor>log 2 x\<rfloor> = bl - 1 + xe"
    using floor_log2 [OF xpos] by simp
  have ex: "expo x = xe + t" by (simp add: expo_def lg t_def)
  have "(2::real) powi (xe + t) = 2 powi xe * 2 ^ nat t"
    using t3 by (simp add: power_int_add powi_nat)
  then have y: "x / 2 powi (xe + t) = X / 2 ^ nat t"
    by (simp add: x_def)
  have he: "halfEven (X / 2 ^ nat t) = nearestEven (q div 2 ^ nat t) (q mod 2 ^ nat t) (2 ^ (nat t - 1))"
    using t3 X by (intro halfEven_nearestEven) auto
  have n1: "nat (t - 1) = nat t - 1" using t3 by simp
  have "roundSticky s q xe = pack s (halfEven (X / 2 ^ nat t)) (xe + t)"
    by (simp add: roundSticky_def narrow_def scale2_def he n1 flip: t_def bl_def)
  also have "\<dots> = rnd s x"
    using xpos by (simp add: rnd_def ex y)
  finally show ?thesis by (simp add: q_def x_def X_def)
qed

lemma powi_add2: "(2::real) powi (a + b) = 2 powi a * 2 powi b"
  by (simp add: power_int_add)

lemma roundRat_rnd:
  assumes n: "0 \<le> n" and d: "0 < d"
  shows "roundRat s n d e = rnd s (real_of_int n / real_of_int d * 2 powi e)"
proof (cases "n = 0")
  case True
  then show ?thesis by (simp add: roundRat_def rnd_def)
next
  case False
  with n have npos: "0 < n" by simp
  define bn where "bn = bitlen n"
  define bd where "bd = bitlen d"
  define k where "k = 55 + bd - bn"
  have bn: "2 ^ nat (bn - 1) \<le> n" "n < 2 ^ nat bn" "1 \<le> bn"
    using bitlen_bounds [OF npos] npos by (simp_all add: bn_def bitlen_ge_iff_power)
  have bd: "2 ^ nat (bd - 1) \<le> d" "d < 2 ^ nat bd" "1 \<le> bd"
    using bitlen_bounds [OF d] d by (simp_all add: bd_def bitlen_ge_iff_power)
  have rr: "roundRat s n d e =
      roundSticky s (if 0 \<le> k then quotSticky (scale2 n k) d else quotSticky n (scale2 d (- k))) (e - k - 1)"
    using False by (simp add: roundRat_def roundScaled_def k_def bn_def bd_def)
  show ?thesis
  proof (cases "0 \<le> k")
    case True
    have e1: "nat (bn - 1) + nat k = 54 + nat bd"
      using True bn(3) bd(3) by (simp add: k_def)
    have "2 ^ 54 * d \<le> 2 ^ 54 * 2 ^ nat bd" using bd(2) by simp
    also have "\<dots> = (2::int) ^ nat (bn - 1) * 2 ^ nat k"
      by (simp only: power_add [symmetric] e1)
    also have "\<dots> \<le> n * 2 ^ nat k" using bn(1) by simp
    finally have N: "2 ^ 54 * d \<le> scale2 n k" by (simp add: scale2_def)
    have "(2::real) powi (e - k - 1) * 2 ^ nat k * 2 = 2 powi e"
    proof -
      have "(2::real) ^ nat k = 2 powi k" using True by (simp add: powi_nat)
      moreover have "(2::real) powi e = 2 powi ((e - k - 1) + (k + 1))" by simp
      moreover have "(2::real) powi ((e - k - 1) + (k + 1)) = 2 powi (e - k - 1) * (2 powi k * 2 powi 1)"
        by (simp only: powi_add2)
      ultimately show ?thesis by simp
    qed
    then have v: "2 * real_of_int (scale2 n k) / real_of_int d * 2 powi (e - k - 1) =
      real_of_int n / real_of_int d * 2 powi e"
      by (simp add: scale2_def field_simps)
    have "roundRat s n d e = roundSticky s (quotSticky (scale2 n k) d) (e - k - 1)"
      using True by (simp add: rr)
    also have "\<dots> = rnd s (2 * real_of_int (scale2 n k) / real_of_int d * 2 powi (e - k - 1))"
      by (rule roundSticky_rnd [OF d N])
    also have "\<dots> = rnd s (real_of_int n / real_of_int d * 2 powi e)"
      by (simp only: v)
    finally show ?thesis .
  next
    case False
    then have kn: "0 \<le> - k" by simp
    have e1: "54 + nat (- k) + nat bd = nat (bn - 1)"
      using False bn(3) bd(3) by (simp add: k_def)
    have dpos: "0 < scale2 d (- k)" using d by (simp add: scale2_def)
    have "2 ^ 54 * scale2 d (- k) = 2 ^ 54 * 2 ^ nat (- k) * d" by (simp add: scale2_def)
    also have "\<dots> \<le> 2 ^ 54 * 2 ^ nat (- k) * 2 ^ nat bd" using bd(2) by simp
    also have "\<dots> = (2::int) ^ nat (bn - 1)"
      by (simp only: power_add [symmetric] e1)
    also have "\<dots> \<le> n" using bn(1) .
    finally have N: "2 ^ 54 * scale2 d (- k) \<le> n" .
    have "(2::real) powi (e - k - 1) * 2 = 2 powi e * 2 ^ nat (- k)"
    proof -
      have "(2::real) ^ nat (- k) = 2 powi (- k)" using kn by (simp only: powi_nat)
      moreover have "(2::real) powi (e - k - 1) * 2 powi 1 = 2 powi ((e - k - 1) + 1)"
        by (simp only: powi_add2)
      moreover have "(2::real) powi e * 2 powi (- k) = 2 powi (e + - k)"
        by (simp only: powi_add2)
      moreover have "e - k - 1 + 1 = e + - k" by simp
      ultimately show ?thesis by simp
    qed
    then have v: "2 * real_of_int n / real_of_int (scale2 d (- k)) * 2 powi (e - k - 1) =
      real_of_int n / real_of_int d * 2 powi e"
      using d by (simp add: scale2_def field_simps)
    have "roundRat s n d e = roundSticky s (quotSticky n (scale2 d (- k))) (e - k - 1)"
      using False by (simp add: rr)
    also have "\<dots> = rnd s (2 * real_of_int n / real_of_int (scale2 d (- k)) * 2 powi (e - k - 1))"
      by (rule roundSticky_rnd [OF dpos N])
    also have "\<dots> = rnd s (real_of_int n / real_of_int d * 2 powi e)"
      by (simp only: v)
    finally show ?thesis .
  qed
qed

lemma halfEven_error: "\<bar>real_of_int (halfEven y) - y\<bar> \<le> 1 / 2"
proof -
  have "real_of_int \<lfloor>y\<rfloor> \<le> y" "y < real_of_int \<lfloor>y\<rfloor> + 1" by linarith+
  then show ?thesis by (auto simp add: halfEven_def)
qed

lemma halfEven_nonneg: "0 \<le> y \<Longrightarrow> 0 \<le> halfEven y"
  by (auto simp add: halfEven_def)

lemma halfEven_le: "y \<le> real_of_int k \<Longrightarrow> halfEven y \<le> k"
proof -
  assume a: "y \<le> real_of_int k"
  then have f: "\<lfloor>y\<rfloor> \<le> k" by (simp add: floor_le_iff)
  show ?thesis
  proof (cases "\<lfloor>y\<rfloor> = k")
    case True
    then have "real_of_int k \<le> y" by (metis of_int_floor_le)
    with a have "y = real_of_int k" by simp
    then show ?thesis by (simp add: halfEven_def)
  next
    case False
    with f show ?thesis by (auto simp add: halfEven_def)
  qed
qed

lemma halfEven_of_int: "halfEven (real_of_int k) = k"
  by (simp add: halfEven_def)

lemma stripZeros_value:
  "\<exists>m' e'. stripZeros s m e = Finite s m' e' \<and> real_of_int m' * 2 powi e' = real_of_int m * 2 powi e
     \<and> (0 \<le> m \<longrightarrow> 0 \<le> m') \<and> (0 < m \<longrightarrow> 0 < m')"
proof (induction s m e rule: stripZeros.induct)
  case (1 s m e)
  show ?case
  proof (cases "m = 0")
    case True
    then show ?thesis by (simp add: stripZeros.simps)
  next
    case nz: False
    show ?thesis
    proof (cases "even m")
      case True
      from 1 [OF nz True] obtain m' e' where
        h: "stripZeros s (m div 2) (e + 1) = Finite s m' e'"
           "real_of_int m' * 2 powi e' = real_of_int (m div 2) * 2 powi (e + 1)"
           "0 \<le> m div 2 \<longrightarrow> 0 \<le> m'" "0 < m div 2 \<longrightarrow> 0 < m'"
        by blast
      from True obtain j where j: "m = 2 * j" by (elim evenE)
      have "real_of_int (m div 2) * 2 powi (e + 1) = real_of_int m * 2 powi e"
        by (simp add: j powi_add2)
      moreover have "stripZeros s m e = stripZeros s (m div 2) (e + 1)"
        using nz True by (subst stripZeros.simps) simp
      moreover have "0 \<le> m \<longrightarrow> 0 \<le> m div 2" "0 < m \<longrightarrow> 0 < m div 2"
        using nz by (auto simp add: j)
      ultimately show ?thesis using h by auto
    next
      case False
      then show ?thesis using nz by (subst stripZeros.simps) simp
    qed
  qed
qed

lemma log2_less: "0 < x \<Longrightarrow> x < 2 powi k \<Longrightarrow> \<lfloor>log 2 x\<rfloor> < k"
proof -
  assume x: "0 < x" "x < 2 powi k"
  define L where "L = \<lfloor>log 2 x\<rfloor>"
  from floor_log2 [OF x(1), of L] have "2 powi L \<le> x" by (simp add: L_def)
  with x(2) have "(2::real) powi L < 2 powi k" by linarith
  have "L < k"
  proof (rule ccontr)
    assume "\<not> L < k"
    then have "(2::real) powi k \<le> 2 powi L" by (intro power_int_increasing) simp_all
    with \<open>(2::real) powi L < 2 powi k\<close> show False by simp
  qed
  then show ?thesis by (simp add: L_def)
qed

lemma log2_ge: "0 < x \<Longrightarrow> 2 powi k \<le> x \<Longrightarrow> k \<le> \<lfloor>log 2 x\<rfloor>"
proof -
  assume x: "0 < x" "2 powi k \<le> x"
  define L where "L = \<lfloor>log 2 x\<rfloor>"
  from floor_log2 [OF x(1), of L] have "x < 2 powi (L + 1)" by (simp add: L_def)
  with x(2) have "(2::real) powi k < 2 powi (L + 1)" by linarith
  have "k < L + 1"
  proof (rule ccontr)
    assume "\<not> k < L + 1"
    then have "(2::real) powi (L + 1) \<le> 2 powi k" by (intro power_int_increasing) simp_all
    with \<open>(2::real) powi k < 2 powi (L + 1)\<close> show False by simp
  qed
  then show ?thesis by (simp add: L_def)
qed

lemma rnd_finite:
  assumes x: "0 < x" "x < 2 powi 1023"
  shows "\<exists>m e. rnd s x = Finite s m e \<and> 0 \<le> m
           \<and> \<bar>real_of_int m * 2 powi e - x\<bar> \<le> 2 powi (expo x - 1)"
proof -
  define L where "L = \<lfloor>log 2 x\<rfloor>"
  define E where "E = expo x"
  define y where "y = x / 2 powi E"
  define M where "M = halfEven y"
  have L: "2 powi L \<le> x" "x < 2 powi (L + 1)"
    using floor_log2 [OF x(1), of L] by (simp_all add: L_def)
  have L1022: "L \<le> 1022" using log2_less [OF x] by (simp add: L_def)
  have E: "L - 52 \<le> E" "E \<le> 970" using L1022 by (simp_all add: E_def expo_def L_def)
  have pE: "0 < (2::real) powi E" by simp
  have ypos: "0 < y" using x(1) by (simp add: y_def)
  have "(2::real) powi (L + 1) \<le> 2 powi (E + 53)"
    using E(1) by (intro power_int_increasing) simp_all
  also have "\<dots> = 2 powi E * 2 ^ 53" by (simp add: powi_add2 powi_nat)
  finally have "x < 2 powi E * 2 ^ 53" using L(2) by linarith
  then have y53: "y < 2 ^ 53" using pE by (simp add: y_def field_simps)
  have "y \<le> real_of_int (2 ^ 53)" using y53 by simp
  then have M53: "M \<le> 2 ^ 53" unfolding M_def by (rule halfEven_le)
  have M0: "0 \<le> M" using ypos by (simp add: M_def halfEven_nonneg)
  have "M < 2 ^ nat 54" using M53 by simp
  then have "bitlen M \<le> 54" by (simp add: bitlen_le_iff_power)
  then have "\<not> bitlen M + E > 1024" using E(2) by simp
  then have p: "rnd s x = stripZeros s M E"
    using x(1) by (simp add: rnd_def pack_def M_def y_def E_def)
  from stripZeros_value [of s M E] obtain m' e' where
    h: "stripZeros s M E = Finite s m' e'" "real_of_int m' * 2 powi e' = real_of_int M * 2 powi E"
       "0 \<le> M \<longrightarrow> 0 \<le> m'"
    by blast
  have "real_of_int M * 2 powi E - x = (real_of_int M - y) * 2 powi E"
    by (simp add: y_def field_simps)
  then have "\<bar>real_of_int M * 2 powi E - x\<bar> = \<bar>real_of_int M - y\<bar> * 2 powi E"
    by (simp add: abs_mult)
  also have "\<dots> \<le> 1 / 2 * 2 powi E"
    using halfEven_error [of y] by (intro mult_right_mono) (simp_all add: M_def)
  also have "\<dots> = 2 powi (E - 1)"
    by (simp add: power_int_diff)
  finally have "\<bar>real_of_int m' * 2 powi e' - x\<bar> \<le> 2 powi (expo x - 1)"
    by (simp add: h(2) E_def)
  with p h M0 show ?thesis by auto
qed

lemma positive_valof: "positive x v \<Longrightarrow> valof x = v \<and> 0 < v"
  by (auto simp add: positive_def)

lemma expo_normal:
  assumes "2 powi (- 1022) \<le> x"
  shows "2 powi (expo x + 52) \<le> x"
proof -
  have x: "0 < x" by (rule less_le_trans [OF _ assms]) simp
  define L where "L = \<lfloor>log 2 x\<rfloor>"
  have "- 1022 \<le> L" using log2_ge [OF x assms] by (simp add: L_def)
  then have "expo x = L - 52" by (simp add: expo_def flip: L_def)
  moreover have "2 powi L \<le> x" using floor_log2 [OF x, of L] by (simp add: L_def)
  ultimately show ?thesis by simp
qed

lemma rnd_normal:
  assumes x: "2 powi (- 1022) \<le> x" "x < 2 powi 1023"
  shows "\<exists>m e. rnd s x = Finite s m e \<and> 0 < m \<and> \<bar>real_of_int m * 2 powi e - x\<bar> \<le> x / 2 ^ 53"
proof -
  have xpos: "0 < x" by (rule less_le_trans [OF _ x(1)]) simp
  from rnd_finite [OF xpos x(2), of s] obtain m e where
    h: "rnd s x = Finite s m e" "0 \<le> m" "\<bar>real_of_int m * 2 powi e - x\<bar> \<le> 2 powi (expo x - 1)"
    by blast
  have "(2::real) powi (expo x + 52) = 2 powi (expo x - 1) * 2 ^ 53"
  proof -
    have "expo x + 52 = (expo x - 1) + 53" by simp
    then show ?thesis by (simp only: powi_add2) (simp add: powi_nat)
  qed
  with expo_normal [OF x(1)] have "2 powi (expo x - 1) * 2 ^ 53 \<le> x" by simp
  then have b: "2 powi (expo x - 1) \<le> x / 2 ^ 53" by (simp add: field_simps)
  with h(3) have err: "\<bar>real_of_int m * 2 powi e - x\<bar> \<le> x / 2 ^ 53" by linarith
  have "x / 2 ^ 53 < x" using xpos by simp
  with err have mp: "0 < real_of_int m * 2 powi e" by linarith
  have "0 < m"
  proof (rule ccontr)
    assume "\<not> 0 < m"
    then have "real_of_int m \<le> 0" by simp
    then have "real_of_int m * 2 powi e \<le> 0" by (intro mult_nonpos_nonneg) simp_all
    with mp show False by simp
  qed
  with h(1) err show ?thesis by auto
qed

lemma rne_normal:
  assumes "2 powi (- 1022) \<le> x" "x < 2 powi 1023"
  shows "positive (rnd False x) (rne x)" and "\<bar>rne x - x\<bar> \<le> x / 2 ^ 53"
proof -
  from rnd_normal [OF assms, of False] obtain m e where
    h: "rnd False x = Finite False m e" "0 < m" "\<bar>real_of_int m * 2 powi e - x\<bar> \<le> x / 2 ^ 53"
    by blast
  then show "positive (rnd False x) (rne x)" by (simp add: positive_def rne_def)
  from h show "\<bar>rne x - x\<bar> \<le> x / 2 ^ 53" by (simp add: rne_def)
qed

lemma rne_of_int:
  assumes k: "0 < k" "k < 2 ^ 53"
  shows "rne (real_of_int k) = real_of_int k"
proof -
  define x where "x = real_of_int k"
  have x1: "1 \<le> x" using k(1) by (simp add: x_def)
  have xpos: "0 < x" using x1 by simp
  have "real_of_int k < real_of_int (2 ^ 53)" using k(2) by (simp only: of_int_less_iff)
  then have x53: "x < 2 powi 53" by (simp add: x_def powi_nat)
  moreover have "(2::real) powi 53 \<le> 2 powi 1023" by (intro power_int_increasing) simp_all
  ultimately have x1023: "x < 2 powi 1023" by (rule less_le_trans)
  define E where "E = expo x"
  have "\<lfloor>log 2 x\<rfloor> < 53" using log2_less [OF xpos x53] .
  moreover have "0 \<le> \<lfloor>log 2 x\<rfloor>" using log2_ge [OF xpos, of 0] x1 by simp
  ultimately have E: "E \<le> 0" "- 52 \<le> E" by (simp_all add: E_def expo_def)
  have "x / 2 powi E = x * 2 powi (- E)" by (simp add: power_int_minus field_simps)
  also have "\<dots> = real_of_int (k * 2 ^ nat (- E))" using E by (simp add: powi_nat x_def)
  finally have y: "x / 2 powi E = real_of_int (k * 2 ^ nat (- E))" .
  from rnd_finite [OF xpos x1023, of False] obtain m e where
    h: "rnd False x = Finite False m e" by blast
  have "(2::real) powi 52 \<le> 2 powi 1023" by (intro power_int_increasing) simp_all
  have "\<not> bitlen (k * 2 ^ nat (- E)) + E > 1024"
  proof -
    have "bitlen (k * 2 ^ nat (- E)) = bitlen k + int (nat (- E))" using k(1) by (rule bitlen_pow2)
    moreover have "bitlen k \<le> 53" using k(2) by (simp add: bitlen_le_iff_power)
    ultimately show ?thesis using E by simp
  qed
  then have "pack False (k * 2 ^ nat (- E)) E = stripZeros False (k * 2 ^ nat (- E)) E"
    by (simp add: pack_def)
  moreover have "halfEven (x / 2 powi E) = k * 2 ^ nat (- E)"
    by (simp only: y halfEven_of_int)
  moreover have "rnd False x = pack False (halfEven (x / 2 powi E)) E"
    using xpos by (simp add: rnd_def E_def)
  ultimately have "rnd False x = stripZeros False (k * 2 ^ nat (- E)) E"
    by simp
  moreover from stripZeros_value [of False "k * 2 ^ nat (- E)" E] obtain m' e' where
    "stripZeros False (k * 2 ^ nat (- E)) E = Finite False m' e'"
    "real_of_int m' * 2 powi e' = real_of_int (k * 2 ^ nat (- E)) * 2 powi E"
    by blast
  ultimately have "rne x = real_of_int (k * 2 ^ nat (- E)) * 2 powi E"
    by (simp add: rne_def)
  also have "\<dots> = x / 2 powi E * 2 powi E" by (simp only: y)
  also have "\<dots> = x" by simp
  finally show ?thesis by (simp add: x_def)
qed

lemma positive_of_int:
  assumes k: "0 < k" "k < 2 ^ 53"
  shows "positive (f64_of_int k) (real_of_int k)"
proof -
  have "f64_of_int k = rnd False (real_of_int k)"
    using k(1) roundRat_rnd [of k 1 False 0] by (simp add: f64_of_int_def)
  moreover have "2 powi (- 1022) \<le> real_of_int k"
  proof -
    have "(2::real) powi (- 1022) \<le> 2 powi 0" by (intro power_int_increasing) simp_all
    moreover have "1 \<le> real_of_int k" using k(1) by simp
    ultimately show ?thesis by simp
  qed
  moreover have "real_of_int k < 2 powi 1023"
  proof -
    have "real_of_int k < real_of_int (2 ^ 53)" using k(2) by (simp only: of_int_less_iff)
    moreover have "(2::real) powi 53 \<le> 2 powi 1023" by (intro power_int_increasing) simp_all
    ultimately show ?thesis by (simp add: powi_nat)
  qed
  ultimately show ?thesis using rne_normal(1) [of "real_of_int k"] rne_of_int [OF k] by simp
qed

lemma positive_div:
  assumes "positive x v" "positive y w"
  shows "f64_div x y = rnd False (v / w)"
proof -
  from assms obtain m1 e1 m2 e2 where
    h: "x = Finite False m1 e1" "0 < m1" "v = real_of_int m1 * 2 powi e1"
       "y = Finite False m2 e2" "0 < m2" "w = real_of_int m2 * 2 powi e2"
    by (auto simp add: positive_def)
  have "f64_div x y = rnd False (real_of_int m1 / real_of_int m2 * 2 powi (e1 - e2))"
    using h(2,5) roundRat_rnd [of m1 m2 False "e1 - e2"] by (simp add: h(1,4))
  also have "real_of_int m1 / real_of_int m2 * 2 powi (e1 - e2) = v / w"
    by (simp add: h(3,6) power_int_diff)
  finally show ?thesis .
qed

lemma positive_mul:
  assumes "positive x v" "positive y w"
  shows "f64_mul x y = rnd False (v * w)"
proof -
  from assms obtain m1 e1 m2 e2 where
    h: "x = Finite False m1 e1" "0 < m1" "v = real_of_int m1 * 2 powi e1"
       "y = Finite False m2 e2" "0 < m2" "w = real_of_int m2 * 2 powi e2"
    by (auto simp add: positive_def)
  have "f64_mul x y = rnd False (real_of_int (m1 * m2) / real_of_int 1 * 2 powi (e1 + e2))"
    using h(2,5) roundRat_rnd [of "m1 * m2" 1 False "e1 + e2"] by (simp add: h(1,4))
  also have "real_of_int (m1 * m2) / real_of_int 1 * 2 powi (e1 + e2) = v * w"
    by (simp add: h(3,6) powi_add2)
  finally show ?thesis .
qed

lemma positive_trunc:
  assumes "positive x v"
  shows "f64_trunc x = Some \<lfloor>v\<rfloor>"
proof -
  from assms obtain m e where h: "x = Finite False m e" "0 < m" "v = real_of_int m * 2 powi e"
    by (auto simp add: positive_def)
  show ?thesis
  proof (cases "0 \<le> e")
    case True
    then have "v = real_of_int (m * 2 ^ nat e)" by (simp add: h(3) powi_nat)
    then have "\<lfloor>v\<rfloor> = m * 2 ^ nat e" by (simp only: floor_of_int)
    then show ?thesis using True by (simp add: h(1) withSign_def scale2_def)
  next
    case False
    then have "(2::real) powi e = 1 / 2 ^ nat (- e)"
      by (simp add: power_int_def field_simps)
    then have "v = real_of_int m / real_of_int (2 ^ nat (- e))" by (simp add: h(3))
    then have "\<lfloor>v\<rfloor> = m div 2 ^ nat (- e)" by (simp only: floor_divide_of_int_eq)
    then show ?thesis using False by (simp add: h(1) withSign_def scale2_def)
  qed
qed

lemma c52_pos: "0 < c52" "1 \<le> c52" "0 < c52 ^ k" "1 \<le> c52 ^ k"
  by (simp_all add: c52_def add_pos_pos one_le_power)

lemma near_refl: "0 < x \<Longrightarrow> near 0 x x"
  by (simp add: near_def)

lemma near_trans:
  assumes "near j x y" "near k y z"
  shows "near (j + k) x z"
proof -
  from assms have p: "0 < x" "0 < y" "0 < z"
    and a: "x \<le> c52 ^ j * y" "y \<le> c52 ^ j * x" "y \<le> c52 ^ k * z" "z \<le> c52 ^ k * y"
    by (simp_all add: near_def)
  have "c52 ^ j * y \<le> c52 ^ j * (c52 ^ k * z)"
    using a(3) c52_pos(3) [of j] by (intro mult_left_mono) simp_all
  with a(1) have 1: "x \<le> c52 ^ (j + k) * z" by (simp add: power_add mult.assoc)
  have "c52 ^ k * y \<le> c52 ^ k * (c52 ^ j * x)"
    using a(2) c52_pos(3) [of k] by (intro mult_left_mono) simp_all
  with a(4) have 2: "z \<le> c52 ^ (j + k) * x" by (simp add: power_add mult.assoc mult.left_commute)
  from p 1 2 show ?thesis by (simp add: near_def)
qed

lemma near_mult:
  assumes "near k a b" "0 < m"
  shows "near k (m * a) (m * b)"
proof -
  from assms have p: "0 < a" "0 < b" and h: "a \<le> c52 ^ k * b" "b \<le> c52 ^ k * a"
    by (simp_all add: near_def)
  have "m * a \<le> m * (c52 ^ k * b)" using h(1) assms(2) by (intro mult_left_mono) simp_all
  moreover have "m * b \<le> m * (c52 ^ k * a)" using h(2) assms(2) by (intro mult_left_mono) simp_all
  ultimately show ?thesis using p assms(2) by (simp add: near_def mult.left_commute)
qed

lemma near_mult2:
  assumes "near k a b"
  shows "near k (a * 2) (b * 2)"
  using near_mult [OF assms, of 2] by (simp add: mult.commute)

lemma near_div2:
  assumes "near k a b"
  shows "near k (a / 2) (b / 2)"
  using near_mult [OF assms, of "1 / 2"] by simp

lemma near_div:
  assumes "near k a b" "0 < m"
  shows "near k (m / a) (m / b)"
proof -
  from assms have p: "0 < a" "0 < b" and h: "a \<le> c52 ^ k * b" "b \<le> c52 ^ k * a"
    by (simp_all add: near_def)
  have "m * b \<le> m * (c52 ^ k * a)" using h(2) assms(2) by (intro mult_left_mono) simp_all
  then have 1: "m / a \<le> c52 ^ k * (m / b)" using p by (simp add: field_simps)
  have "m * a \<le> m * (c52 ^ k * b)" using h(1) assms(2) by (intro mult_left_mono) simp_all
  then have 2: "m / b \<le> c52 ^ k * (m / a)" using p by (simp add: field_simps)
  from p 1 2 assms(2) show ?thesis by (simp add: near_def)
qed

lemma rne_near:
  assumes "1 / 2 ^ 100 \<le> x" "x \<le> 2 ^ 100"
  shows "near 1 (rne x) x" and "positive (rnd False x) (rne x)"
proof -
  have "(2::real) powi (- 1022) \<le> 2 powi (- 100)" by (intro power_int_increasing) simp_all
  also have "\<dots> = 1 / 2 ^ 100" by (simp add: power_int_minus powi_nat field_simps)
  finally have lo: "2 powi (- 1022) \<le> x" using assms(1) by simp
  have "(2::real) ^ 100 = 2 powi 100" by (simp add: powi_nat)
  also have "\<dots> < 2 powi 1023" by (intro power_int_strict_increasing) simp_all
  finally have hi: "x < 2 powi 1023" using assms(2) by simp
  have xpos: "0 < x" by (rule less_le_trans [OF _ assms(1)]) simp
  note e = rne_normal(2) [OF lo hi]
  show "positive (rnd False x) (rne x)" by (rule rne_normal(1) [OF lo hi])
  then have rpos: "0 < rne x" using positive_valof by blast
  have 1: "rne x \<le> c52 * x"
  proof -
    have "rne x \<le> x + x / 2 ^ 53" using e by linarith
    also have "\<dots> \<le> x + x / 2 ^ 52" using xpos by (simp add: field_simps)
    finally show ?thesis by (simp add: c52_def field_simps)
  qed
  have 2: "x \<le> c52 * rne x"
  proof -
    define K :: real where "K = (1 + 1 / 2 ^ 52) * (1 - 1 / 2 ^ 53)"
    have K: "1 \<le> K" by (simp add: K_def)
    have "x - x / 2 ^ 53 \<le> rne x" using e by linarith
    then have A: "c52 * (x - x / 2 ^ 53) \<le> c52 * rne x"
      using c52_pos(1) by (intro mult_left_mono) simp_all
    have B: "c52 * (x - x / 2 ^ 53) = x * K"
      by (simp add: c52_def K_def field_simps)
    have C: "x * 1 \<le> x * K"
      using xpos K by (intro mult_left_mono) simp_all
    from A B C show ?thesis by linarith
  qed
  from xpos rpos 1 2 show "near 1 (rne x) x" by (simp add: near_def)
qed

lemma c52_cube: "c52 ^ 3 \<le> 1 + 1 / 2 ^ 50" "c52 ^ 3 \<le> 2"
  by (simp_all add: c52_def power3_eq_cube)

lemma near3_range:
  assumes "near k v x" "k \<le> 3" "lo * 2 \<le> x" "x * 2 \<le> hi"
  shows "lo \<le> v" "v \<le> hi"
proof -
  from assms(1) have p: "0 < v" "0 < x" and h: "v \<le> c52 ^ k * x" "x \<le> c52 ^ k * v"
    by (simp_all add: near_def)
  have "c52 ^ k \<le> c52 ^ 3" using assms(2) c52_pos(2) by (intro power_increasing) simp_all
  then have ck: "c52 ^ k \<le> 2" using c52_cube(2) by linarith
  have "c52 ^ k * x \<le> 2 * x" using ck p(2) by (intro mult_right_mono) simp_all
  with h(1) assms(4) show "v \<le> hi" by linarith
  have "c52 ^ k * v \<le> 2 * v" using ck p(1) by (intro mult_right_mono) simp_all
  with h(2) assms(3) show "lo \<le> v" by linarith
qed

lemma floor_near:
  assumes n: "near 3 y (real_of_int A / real_of_int B)"
    and A: "0 < A" "A < 2 ^ 49" and B: "0 < B" "B < 2 ^ 49"
  shows "B * \<lfloor>y\<rfloor> \<le> A" and "A \<le> B * (\<lfloor>y\<rfloor> + 1)" and "0 \<le> \<lfloor>y\<rfloor>"
proof -
  define j where "j = \<lfloor>y\<rfloor>"
  define a where "a = real_of_int A"
  define b where "b = real_of_int B"
  define c where "c = c52 ^ 3"
  have c: "c \<le> 1 + 1 / 2 ^ 50" "0 < c" using c52_cube(1) c52_pos(3) [of 3] by (simp_all add: c_def)
  have ab: "0 < a" "0 < b" using A B by (simp_all add: a_def b_def)
  have "real_of_int A < real_of_int (2 ^ 49)" using A(2) by (simp only: of_int_less_iff)
  then have a49: "a < 2 ^ 49" by (simp add: a_def)
  have "real_of_int B < real_of_int (2 ^ 49)" using B(2) by (simp only: of_int_less_iff)
  then have b49: "b < 2 ^ 49" by (simp add: b_def)
  from n have y: "0 < y" and h: "y \<le> c * (a / b)" "a / b \<le> c * y"
    by (simp_all add: near_def a_def b_def c_def)
  have jy: "real_of_int j \<le> y" "y < real_of_int j + 1" unfolding j_def by linarith+
  show "0 \<le> \<lfloor>y\<rfloor>" using y by simp
  then have j0: "0 \<le> real_of_int j" by (simp add: j_def)
  have by1: "b * y \<le> c * a"
  proof -
    have "b * y \<le> b * (c * (a / b))" using h(1) ab by (intro mult_left_mono) simp_all
    then show ?thesis using ab by simp
  qed
  have by2: "a \<le> c * (b * y)"
  proof -
    have "b * (a / b) \<le> b * (c * y)" using h(2) ab by (intro mult_left_mono) simp_all
    then show ?thesis using ab by (simp add: mult.left_commute)
  qed
  have "c * a \<le> (1 + 1 / 2 ^ 50) * a" using c(1) ab by (intro mult_right_mono) simp_all
  also have "\<dots> = a + a / 2 ^ 50" by (simp add: field_simps)
  also have "\<dots> < a + 1" using a49 by simp
  finally have ca: "c * a < a + 1" .
  have "b * real_of_int j \<le> b * y" using jy(1) ab by (intro mult_left_mono) simp_all
  with by1 ca have "b * real_of_int j < a + 1" by linarith
  then have "real_of_int (B * j) < real_of_int (A + 1)" by (simp add: a_def b_def)
  then have "B * j < A + 1" by (simp only: of_int_less_iff)
  then show "B * \<lfloor>y\<rfloor> \<le> A" by (simp add: j_def)
  then have "B * j + B \<le> A + B" by (simp add: j_def)
  then have "real_of_int (B * j + B) \<le> real_of_int (A + B)" by (simp only: of_int_le_iff)
  then have T: "b * (real_of_int j + 1) \<le> a + b" by (simp add: a_def b_def field_simps)
  define T where "T = b * (real_of_int j + 1)"
  have T50: "T < 2 ^ 50" using T a49 b49 by (simp add: T_def)
  have Tpos: "0 < T" using ab j0 by (simp add: T_def)
  have "b * y \<le> T" using jy(2) ab unfolding T_def by (intro mult_left_mono) simp_all
  then have "c * (b * y) \<le> c * T" using c(2) by (intro mult_left_mono) simp_all
  also have "\<dots> \<le> (1 + 1 / 2 ^ 50) * T" using c(1) Tpos by (intro mult_right_mono) simp_all
  also have "\<dots> = T + T / 2 ^ 50" by (simp add: field_simps)
  also have "\<dots> < T + 1" using T50 by simp
  finally have "a < T + 1" using by2 by linarith
  then have "real_of_int A < real_of_int (B * (j + 1) + 1)" by (simp add: a_def b_def T_def)
  then have "A < B * (j + 1) + 1" by (simp only: of_int_less_iff)
  then show "A \<le> B * (\<lfloor>y\<rfloor> + 1)" by (simp add: j_def)
qed

lemma near_mid:
  assumes "near k v x" "k \<le> 3" "1 / 2 ^ 48 \<le> x" "x \<le> 2 ^ 48"
  shows "1 / 2 ^ 100 \<le> v" and "v \<le> 2 ^ 100"
proof -
  have "(1::real) / 2 ^ 100 * 2 \<le> 1 / 2 ^ 48" "(2::real) ^ 48 * 2 \<le> 2 ^ 100" by simp_all
  with assms(3,4) have "1 / 2 ^ 100 * 2 \<le> x" "x * 2 \<le> 2 ^ 100" by linarith+
  from near3_range [OF assms(1,2) this] show "1 / 2 ^ 100 \<le> v" and "v \<le> 2 ^ 100" .
qed

lemma positive_two: "positive (f64_of_int 2) 2"
  using positive_of_int [of 2] by simp

lemma height_float:
  assumes A: "positive A a" "near 1 a \<rho>" and \<rho>: "1 / 2 ^ 31 \<le> \<rho>" "\<rho> \<le> 2 ^ 31"
    and M: "1 \<le> M" "M < 2 ^ 16"
  shows "positive (f64_div (f64_div (f64_of_int M) A) (f64_of_int 2)) (rne (rne (real_of_int M / a) / 2))"
    and "near 3 (rne (rne (real_of_int M / a) / 2)) (real_of_int M / \<rho> / 2)"
proof -
  define m where "m = real_of_int M"
  have m: "1 \<le> m" using M(1) by (simp add: m_def)
  have "real_of_int M < real_of_int (2 ^ 16)" using M(2) by (simp only: of_int_less_iff)
  then have m16: "m < 2 ^ 16" by (simp add: m_def)
  have \<rho>positive: "0 < \<rho>" using A(2) by (simp add: near_def)
  have pM: "positive (f64_of_int M) m" unfolding m_def using M by (intro positive_of_int) simp_all
  have d1: "f64_div (f64_of_int M) A = rnd False (m / a)" using positive_div [OF pM A(1)] .
  have n1: "near 1 (m / a) (m / \<rho>)" using A(2) m by (intro near_div) simp_all
  have r1: "1 / 2 ^ 48 \<le> m / \<rho>" "m / \<rho> \<le> 2 ^ 48"
  proof -
    have "1 / 2 ^ 31 \<le> m / \<rho>" using m \<rho>positive \<rho>(2) by (intro frac_le) simp_all
    moreover have "(1::real) / 2 ^ 48 \<le> 1 / 2 ^ 31" by simp
    ultimately show "1 / 2 ^ 48 \<le> m / \<rho>" by linarith
    have "m / \<rho> \<le> 2 ^ 16 / (1 / 2 ^ 31)" using m m16 \<rho>(1) by (intro frac_le) simp_all
    moreover have "(2::real) ^ 16 / (1 / 2 ^ 31) \<le> 2 ^ 48" by simp
    ultimately show "m / \<rho> \<le> 2 ^ 48" by linarith
  qed
  have R1: "near 1 (rne (m / a)) (m / a)" "positive (rnd False (m / a)) (rne (m / a))"
    using rne_near [OF near_mid [OF n1 _ r1]] by simp_all
  have n2: "near 2 (rne (m / a)) (m / \<rho>)" using near_trans [OF R1(1) n1] by (simp add: numeral_2_eq_2)
  have d2: "f64_div (f64_div (f64_of_int M) A) (f64_of_int 2) = rnd False (rne (m / a) / 2)"
    unfolding d1 using positive_div [OF R1(2) positive_two] .
  have n3: "near 2 (rne (m / a) / 2) (m / \<rho> / 2)" using n2 by (rule near_div2)
  have r2: "1 / 2 ^ 48 \<le> m / \<rho> / 2" "m / \<rho> / 2 \<le> 2 ^ 48"
  proof -
    have "1 / 2 ^ 31 \<le> m / \<rho>" using m \<rho>positive \<rho>(2) by (intro frac_le) simp_all
    then have a: "1 / 2 ^ 31 / 2 \<le> m / \<rho> / 2" by (rule divide_right_mono) simp
    have b: "(1::real) / 2 ^ 48 \<le> 1 / 2 ^ 31 / 2" by simp
    show "1 / 2 ^ 48 \<le> m / \<rho> / 2" by (rule order_trans [OF b a])
    have "m / \<rho> / 2 \<le> 2 ^ 48 / 2" using r1(2) by (rule divide_right_mono) simp
    moreover have "(2::real) ^ 48 / 2 \<le> 2 ^ 48" by simp
    ultimately show "m / \<rho> / 2 \<le> 2 ^ 48" by (rule order_trans)
  qed
  have R2: "near 1 (rne (rne (m / a) / 2)) (rne (m / a) / 2)"
      "positive (rnd False (rne (m / a) / 2)) (rne (rne (m / a) / 2))"
    using rne_near [OF near_mid [OF n3 _ r2]] by simp_all
  show "positive (f64_div (f64_div (f64_of_int M) A) (f64_of_int 2)) (rne (rne (real_of_int M / a) / 2))"
    unfolding d2 using R2(2) by (simp add: m_def)
  show "near 3 (rne (rne (real_of_int M / a) / 2)) (real_of_int M / \<rho> / 2)"
    using near_trans [OF R2(1) n3] by (simp add: m_def numeral_3_eq_3)
qed

lemma width_float:
  assumes A: "positive A a" "near 1 a \<rho>" and \<rho>: "1 / 2 ^ 31 \<le> \<rho>" "\<rho> \<le> 2 ^ 31"
    and N: "1 \<le> N" "N < 2 ^ 16"
  shows "positive (f64_mul (f64_mul (f64_of_int N) A) (f64_of_int 2)) (rne (rne (real_of_int N * a) * 2))"
    and "near 3 (rne (rne (real_of_int N * a) * 2)) (real_of_int N * \<rho> * 2)"
proof -
  define m where "m = real_of_int N"
  have m: "1 \<le> m" using N(1) by (simp add: m_def)
  have "real_of_int N < real_of_int (2 ^ 16)" using N(2) by (simp only: of_int_less_iff)
  then have m16: "m < 2 ^ 16" by (simp add: m_def)
  have \<rho>positive: "0 < \<rho>" using A(2) by (simp add: near_def)
  have pM: "positive (f64_of_int N) m" unfolding m_def using N by (intro positive_of_int) simp_all
  have d1: "f64_mul (f64_of_int N) A = rnd False (m * a)" using positive_mul [OF pM A(1)] .
  have n1: "near 1 (m * a) (m * \<rho>)" using A(2) m by (intro near_mult) simp_all
  have r0: "1 / 2 ^ 31 \<le> m * \<rho>" "m * \<rho> \<le> 2 ^ 47"
  proof -
    have "1 * \<rho> \<le> m * \<rho>" using m \<rho>positive by (intro mult_right_mono) simp_all
    with \<rho>(1) show "1 / 2 ^ 31 \<le> m * \<rho>" by linarith
    have "m * \<rho> \<le> 2 ^ 16 * 2 ^ 31" using m16 \<rho>(2) m \<rho>positive by (intro mult_mono) simp_all
    moreover have "(2::real) ^ 16 * 2 ^ 31 = 2 ^ 47" by simp
    ultimately show "m * \<rho> \<le> 2 ^ 47" by linarith
  qed
  have r1: "1 / 2 ^ 48 \<le> m * \<rho>" "m * \<rho> \<le> 2 ^ 48"
  proof -
    have "(1::real) / 2 ^ 48 \<le> 1 / 2 ^ 31" "(2::real) ^ 47 \<le> 2 ^ 48" by simp_all
    with r0 show "1 / 2 ^ 48 \<le> m * \<rho>" "m * \<rho> \<le> 2 ^ 48" by linarith+
  qed
  have R1: "near 1 (rne (m * a)) (m * a)" "positive (rnd False (m * a)) (rne (m * a))"
    using rne_near [OF near_mid [OF n1 _ r1]] by simp_all
  have n2: "near 2 (rne (m * a)) (m * \<rho>)" using near_trans [OF R1(1) n1] by (simp add: numeral_2_eq_2)
  have d2: "f64_mul (f64_mul (f64_of_int N) A) (f64_of_int 2) = rnd False (rne (m * a) * 2)"
    unfolding d1 using positive_mul [OF R1(2) positive_two] .
  have n3: "near 2 (rne (m * a) * 2) (m * \<rho> * 2)" using n2 by (rule near_mult2)
  have r2: "1 / 2 ^ 48 \<le> m * \<rho> * 2" "m * \<rho> * 2 \<le> 2 ^ 48"
  proof -
    have "(1::real) / 2 ^ 48 \<le> 1 / 2 ^ 31 * 2" "(2::real) ^ 47 * 2 \<le> 2 ^ 48" by simp_all
    with r0 show "1 / 2 ^ 48 \<le> m * \<rho> * 2" "m * \<rho> * 2 \<le> 2 ^ 48" by linarith+
  qed
  have R2: "near 1 (rne (rne (m * a) * 2)) (rne (m * a) * 2)"
      "positive (rnd False (rne (m * a) * 2)) (rne (rne (m * a) * 2))"
    using rne_near [OF near_mid [OF n3 _ r2]] by simp_all
  show "positive (f64_mul (f64_mul (f64_of_int N) A) (f64_of_int 2)) (rne (rne (real_of_int N * a) * 2))"
    unfolding d2 using R2(2) by (simp add: m_def)
  show "near 3 (rne (rne (real_of_int N * a) * 2)) (real_of_int N * \<rho> * 2)"
    using near_trans [OF R2(1) n3] by (simp add: m_def numeral_3_eq_3)
qed

lemma aspect_float:
  assumes W: "1 \<le> W" "W < 2 ^ 31" and H: "1 \<le> H" "H < 2 ^ 31"
  shows "positive (f64_div (f64_of_int W) (f64_of_int H)) (rne (real_of_int W / real_of_int H))"
    and "near 1 (rne (real_of_int W / real_of_int H)) (real_of_int W / real_of_int H)"
    and "1 / 2 ^ 31 \<le> real_of_int W / real_of_int H"
    and "real_of_int W / real_of_int H \<le> 2 ^ 31"
proof -
  define w where "w = real_of_int W"
  define h where "h = real_of_int H"
  have w: "1 \<le> w" "1 \<le> h" using W H by (simp_all add: w_def h_def)
  have "real_of_int W < real_of_int (2 ^ 31)" using W(2) by (simp only: of_int_less_iff)
  then have w31: "w < 2 ^ 31" by (simp add: w_def)
  have "real_of_int H < real_of_int (2 ^ 31)" using H(2) by (simp only: of_int_less_iff)
  then have h31: "h < 2 ^ 31" by (simp add: h_def)
  have pW: "positive (f64_of_int W) w" unfolding w_def using W by (intro positive_of_int) simp_all
  have pH: "positive (f64_of_int H) h" unfolding h_def using H by (intro positive_of_int) simp_all
  have d: "f64_div (f64_of_int W) (f64_of_int H) = rnd False (w / h)" using positive_div [OF pW pH] .
  have r: "1 / 2 ^ 31 \<le> w / h" "w / h \<le> 2 ^ 31"
  proof -
    show "1 / 2 ^ 31 \<le> w / h" using w h31 by (intro frac_le) simp_all
    have "w / h \<le> 2 ^ 31 / 1" using w w31 by (intro frac_le) simp_all
    then show "w / h \<le> 2 ^ 31" by simp
  qed
  have r': "1 / 2 ^ 100 \<le> w / h" "w / h \<le> 2 ^ 100"
  proof -
    have "(1::real) / 2 ^ 100 \<le> 1 / 2 ^ 31" "(2::real) ^ 31 \<le> 2 ^ 100" by simp_all
    with r show "1 / 2 ^ 100 \<le> w / h" "w / h \<le> 2 ^ 100" by linarith+
  qed
  have Rn: "near 1 (rne (w / h)) (w / h)" "positive (rnd False (w / h)) (rne (w / h))"
    using rne_near [OF r'] by simp_all
  show "positive (f64_div (f64_of_int W) (f64_of_int H)) (rne (real_of_int W / real_of_int H))"
    unfolding d using Rn(2) by (simp add: w_def h_def)
  show "near 1 (rne (real_of_int W / real_of_int H)) (real_of_int W / real_of_int H)"
    using Rn(1) by (simp add: w_def h_def)
  show "1 / 2 ^ 31 \<le> real_of_int W / real_of_int H" "real_of_int W / real_of_int H \<le> 2 ^ 31"
    using r by (simp_all add: w_def h_def)
qed

lemma rnd_bounded:
  assumes x: "0 < x" "x \<le> X" and X: "1 \<le> X" "X \<le> 2 ^ 100"
  shows "isFinite (rnd s x)" and "\<bar>valof (rnd s x) - (if s then - 1 else 1) * x\<bar> \<le> X / 2 ^ 52"
proof -
  have "(2::real) ^ 100 = 2 powi 100" by (simp add: powi_nat)
  also have "\<dots> < 2 powi 1023" by (intro power_int_strict_increasing) simp_all
  finally have hi: "x < 2 powi 1023" using x(2) X(2) by simp
  from rnd_finite [OF x(1) hi, of s] obtain m e where
    h: "rnd s x = Finite s m e" "0 \<le> m" "\<bar>real_of_int m * 2 powi e - x\<bar> \<le> 2 powi (expo x - 1)"
    by blast
  show "isFinite (rnd s x)" using h by simp
  define L where "L = \<lfloor>log 2 x\<rfloor>"
  have b: "2 powi (expo x - 1) \<le> X / 2 ^ 52"
  proof (cases "- 1074 \<le> L - 52")
    case True
    then have ex: "expo x = L - 52" by (simp add: expo_def flip: L_def)
    have "2 powi L \<le> x" using floor_log2 [OF x(1), of L] by (simp add: L_def)
    moreover have "(2::real) powi L = 2 powi (L - 53) * 2 ^ 53"
    proof -
      have "L = (L - 53) + 53" by simp
      then have "(2::real) powi L = 2 powi (L - 53) * 2 powi 53" by (metis powi_add2)
      then show ?thesis by (simp add: powi_nat)
    qed
    ultimately have "2 powi (L - 53) * 2 ^ 53 \<le> X" using x(2) by linarith
    then have "2 powi (L - 53) \<le> X / 2 ^ 53" by (simp add: field_simps)
    moreover have "X / 2 ^ 53 \<le> X / 2 ^ 52" using X(1) by (simp add: field_simps)
    ultimately show ?thesis by (simp add: ex)
  next
    case False
    then have ex: "expo x = - 1074" by (simp add: expo_def flip: L_def)
    have "(2::real) powi (- 1075) \<le> 2 powi (- 52)" by (intro power_int_increasing) simp_all
    also have "\<dots> = 1 / 2 ^ 52" by (simp add: power_int_minus powi_nat field_simps)
    also have "\<dots> \<le> X / 2 ^ 52" using X(1) by (simp add: field_simps)
    finally show ?thesis by (simp add: ex)
  qed
  have "valof (rnd s x) - (if s then - 1 else 1) * x
      = (if s then - 1 else 1) * (real_of_int m * 2 powi e - x)"
    by (simp add: h(1) algebra_simps)
  then have "\<bar>valof (rnd s x) - (if s then - 1 else 1) * x\<bar> = \<bar>real_of_int m * 2 powi e - x\<bar>"
    by (simp add: abs_mult)
  with h(3) b show "\<bar>valof (rnd s x) - (if s then - 1 else 1) * x\<bar> \<le> X / 2 ^ 52" by linarith
qed

lemma rnd_zero: "isFinite (rnd s 0)" "valof (rnd s 0) = 0"
  by (simp_all add: rnd_def)

lemma rnd_signed:
  assumes w: "\<bar>w\<bar> \<le> X" and X: "1 \<le> X" "X \<le> 2 ^ 100"
  shows "isFinite (rnd (w < 0) \<bar>w\<bar>)" and "\<bar>valof (rnd (w < 0) \<bar>w\<bar>) - w\<bar> \<le> X / 2 ^ 52"
proof -
  show "isFinite (rnd (w < 0) \<bar>w\<bar>)"
    using rnd_bounded(1) [of "\<bar>w\<bar>" X "w < 0"] rnd_zero(1) [of "w < 0"] w X
    by (cases "w = 0") simp_all
  show "\<bar>valof (rnd (w < 0) \<bar>w\<bar>) - w\<bar> \<le> X / 2 ^ 52"
  proof (cases "w = 0")
    case True
    then show ?thesis using X(1) by (simp add: rnd_zero)
  next
    case False
    then have "0 < \<bar>w\<bar>" by simp
    from rnd_bounded(2) [OF this w X, of "w < 0"]
    show ?thesis by (simp add: abs_if split: if_splits)
  qed
qed

lemma finite_cases:
  assumes "isFinite x"
  obtains s m e where "x = Finite s m e" "0 \<le> m"
  using assms by (cases x) simp_all

lemma mul_err:
  assumes "isFinite x" "isFinite y" and X: "\<bar>valof x * valof y\<bar> \<le> X" "1 \<le> X" "X \<le> 2 ^ 100"
  shows "isFinite (f64_mul x y)" and "\<bar>valof (f64_mul x y) - valof x * valof y\<bar> \<le> X / 2 ^ 52"
proof -
  from assms(1) obtain s1 m1 e1 where x: "x = Finite s1 m1 e1" "0 \<le> m1" by (rule finite_cases)
  from assms(2) obtain s2 m2 e2 where y: "y = Finite s2 m2 e2" "0 \<le> m2" by (rule finite_cases)
  define p where "p = real_of_int (m1 * m2) * 2 powi (e1 + e2)"
  have p0: "0 \<le> p" using x(2) y(2) by (simp add: p_def)
  have m: "f64_mul x y = rnd (s1 \<noteq> s2) p"
    using roundRat_rnd [of "m1 * m2" 1 "s1 \<noteq> s2" "e1 + e2"] x(2) y(2) by (simp add: x y p_def)
  have v: "valof x * valof y = (if s1 \<noteq> s2 then - 1 else 1) * p"
    by (simp add: x y p_def powi_add2)
  have pX: "p \<le> X" using X(1) p0 by (cases "s1 \<noteq> s2") (simp_all add: v)
  show "isFinite (f64_mul x y)"
    using rnd_bounded(1) [of p X "s1 \<noteq> s2"] rnd_zero(1) [of "s1 \<noteq> s2"] p0 pX X(2,3)
    unfolding m by (cases "p = 0") simp_all
  show "\<bar>valof (f64_mul x y) - valof x * valof y\<bar> \<le> X / 2 ^ 52"
  proof (cases "p = 0")
    case True
    then show ?thesis using X(2) by (simp add: m v rnd_zero)
  next
    case False
    with p0 have "0 < p" by simp
    from rnd_bounded(2) [OF this pX X(2,3), of "s1 \<noteq> s2"] show ?thesis
      unfolding m v .
  qed
qed

lemma div_err:
  assumes "isFinite x" "isFinite y" "valof y \<noteq> 0"
    and X: "\<bar>valof x / valof y\<bar> \<le> X" "1 \<le> X" "X \<le> 2 ^ 100"
  shows "isFinite (f64_div x y)" and "\<bar>valof (f64_div x y) - valof x / valof y\<bar> \<le> X / 2 ^ 52"
proof -
  from assms(1) obtain s1 m1 e1 where x: "x = Finite s1 m1 e1" "0 \<le> m1" by (rule finite_cases)
  from assms(2) obtain s2 m2 e2 where y: "y = Finite s2 m2 e2" "0 \<le> m2" by (rule finite_cases)
  have m2: "0 < m2" using assms(3) y by (cases "m2 = 0") simp_all
  define p where "p = real_of_int m1 / real_of_int m2 * 2 powi (e1 - e2)"
  have p0: "0 \<le> p" using x(2) m2 by (simp add: p_def)
  have m: "f64_div x y = rnd (s1 \<noteq> s2) p"
    using roundRat_rnd [of m1 m2 "s1 \<noteq> s2" "e1 - e2"] x(2) m2 by (simp add: x y p_def)
  have v: "valof x / valof y = (if s1 \<noteq> s2 then - 1 else 1) * p"
    by (simp add: x y p_def power_int_diff)
  have pX: "p \<le> X" using X(1) p0 by (cases "s1 \<noteq> s2") (simp_all add: v)
  show "isFinite (f64_div x y)"
    using rnd_bounded(1) [of p X "s1 \<noteq> s2"] rnd_zero(1) [of "s1 \<noteq> s2"] p0 pX X(2,3)
    unfolding m by (cases "p = 0") simp_all
  show "\<bar>valof (f64_div x y) - valof x / valof y\<bar> \<le> X / 2 ^ 52"
  proof (cases "p = 0")
    case True
    then show ?thesis using X(2) by (simp add: m v rnd_zero)
  next
    case False
    with p0 have "0 < p" by simp
    from rnd_bounded(2) [OF this pX X(2,3), of "s1 \<noteq> s2"] show ?thesis
      unfolding m v .
  qed
qed

lemma aligned_value:
  "real_of_int (aligned s m e e') * 2 powi (min e e') = valof (Finite s m e)"
proof -
  have "0 \<le> e - min e e'" by simp
  then have "(2::real) ^ nat (e - min e e') = 2 powi (e - min e e')" by (simp add: powi_nat)
  moreover have "(2::real) powi (e - min e e') * 2 powi (min e e') = 2 powi e"
    by (simp flip: powi_add2)
  ultimately have "(2::real) ^ nat (e - min e e') * 2 powi (min e e') = 2 powi e" by simp
  then have "real_of_int m * (2 ^ nat (e - min e e') * 2 powi (min e e')) = real_of_int m * 2 powi e"
    by simp
  then show ?thesis
    by (simp add: aligned_def scale2_def withSign_def mult.assoc)
qed

lemma add_err:
  assumes "isFinite x" "isFinite y" and X: "\<bar>valof x + valof y\<bar> \<le> X" "1 \<le> X" "X \<le> 2 ^ 100"
  shows "isFinite (f64_add x y)" and "\<bar>valof (f64_add x y) - (valof x + valof y)\<bar> \<le> X / 2 ^ 52"
proof -
  from assms(1) obtain s1 m1 e1 where x: "x = Finite s1 m1 e1" "0 \<le> m1" by (rule finite_cases)
  from assms(2) obtain s2 m2 e2 where y: "y = Finite s2 m2 e2" "0 \<le> m2" by (rule finite_cases)
  define c where "c = aligned s1 m1 e1 e2 + aligned s2 m2 e2 e1"
  define w where "w = valof x + valof y"
  have w: "w = real_of_int c * 2 powi (min e1 e2)"
    using aligned_value [of s1 m1 e1 e2] aligned_value [of s2 m2 e2 e1]
    by (simp add: w_def c_def x y algebra_simps min.commute)
  have a: "f64_add x y = roundSum (s1 \<and> s2) c (min e1 e2)" by (simp add: x y c_def)
  show "isFinite (f64_add x y)" "\<bar>valof (f64_add x y) - (valof x + valof y)\<bar> \<le> X / 2 ^ 52"
  proof -
    have "isFinite (f64_add x y) \<and> \<bar>valof (f64_add x y) - w\<bar> \<le> X / 2 ^ 52"
    proof (cases "c = 0")
      case True
      then show ?thesis using X(2) by (simp add: a roundSum_def w)
    next
      case False
      have "f64_add x y = rnd (c < 0) (real_of_int \<bar>c\<bar> / real_of_int 1 * 2 powi (min e1 e2))"
        using False roundRat_rnd [of "\<bar>c\<bar>" 1 "c < 0" "min e1 e2"] by (simp add: a roundSum_def)
      moreover have "real_of_int \<bar>c\<bar> / real_of_int 1 * 2 powi (min e1 e2) = \<bar>w\<bar>"
        by (simp add: w abs_mult)
      moreover have "(c < 0) = (w < 0)"
      proof -
        have P: "0 < (2::real) powi (min e1 e2)" by simp
        have "(real_of_int c * 2 powi (min e1 e2) < 0 * 2 powi (min e1 e2)) = (real_of_int c < 0)"
          using P by (rule mult_less_cancel_right_pos)
        then show ?thesis by (simp add: w)
      qed
      ultimately have "f64_add x y = rnd (w < 0) \<bar>w\<bar>" by simp
      with rnd_signed [of w X] X show ?thesis by (simp add: w_def)
    qed
    then show "isFinite (f64_add x y)" "\<bar>valof (f64_add x y) - (valof x + valof y)\<bar> \<le> X / 2 ^ 52"
      by (simp_all add: w_def)
  qed
qed

lemma neg_value: "isFinite y \<Longrightarrow> isFinite (f64_neg y) \<and> valof (f64_neg y) = - valof y"
  by (cases y) simp_all

lemma sub_err:
  assumes "isFinite x" "isFinite y" and X: "\<bar>valof x - valof y\<bar> \<le> X" "1 \<le> X" "X \<le> 2 ^ 100"
  shows "isFinite (f64_sub x y)" and "\<bar>valof (f64_sub x y) - (valof x - valof y)\<bar> \<le> X / 2 ^ 52"
  using add_err [of x "f64_neg y" X] neg_value [OF assms(2)] assms(1) X
  by (simp_all add: f64_sub_def)

lemma lt_value:
  assumes "isFinite x" "isFinite y"
  shows "f64_lt x y = (valof x < valof y)"
proof -
  from assms(1) obtain s1 m1 e1 where x: "x = Finite s1 m1 e1" by (rule finite_cases)
  from assms(2) obtain s2 m2 e2 where y: "y = Finite s2 m2 e2" by (rule finite_cases)
  have p: "0 < (2::real) powi (min e1 e2)" by simp
  have "(aligned s1 m1 e1 e2 < aligned s2 m2 e2 e1)
      = (real_of_int (aligned s1 m1 e1 e2) * 2 powi (min e1 e2)
          < real_of_int (aligned s2 m2 e2 e1) * 2 powi (min e1 e2))"
    using p by (simp only: mult_less_cancel_right_pos of_int_less_iff)
  also have "\<dots> = (valof x < valof y)"
    using aligned_value [of s1 m1 e1 e2] aligned_value [of s2 m2 e2 e1]
    by (simp only: x y min.commute [of e2 e1])
  finally show ?thesis by (simp add: x y)
qed

lemma trunc_value:
  assumes "isFinite x" "0 \<le> valof x"
  shows "f64_trunc x = Some \<lfloor>valof x\<rfloor>"
proof -
  from assms(1) obtain s m e where x: "x = Finite s m e" "0 \<le> m" by (rule finite_cases)
  show ?thesis
  proof (cases "m = 0")
    case True
    then show ?thesis by (simp add: x withSign_def scale2_def)
  next
    case False
    with x(2) have m: "0 < m" by simp
    have "\<not> s"
    proof
      assume s
      then have "valof x < 0" using m by (simp add: x)
      with assms(2) show False by simp
    qed
    then have "positive x (valof x)" using m by (simp add: x positive_def)
    then show ?thesis by (rule positive_trunc)
  qed
qed

lemma of_int_value:
  assumes "0 \<le> k" "k < 2 ^ 53"
  shows "isFinite (f64_of_int k)" and "valof (f64_of_int k) = real_of_int k"
proof -
  have "isFinite (f64_of_int k) \<and> valof (f64_of_int k) = real_of_int k"
  proof (cases "k = 0")
    case True
    then show ?thesis by (simp add: f64_of_int_def roundRat_def)
  next
    case False
    with assms have "positive (f64_of_int k) (real_of_int k)" by (intro positive_of_int) simp_all
    then show ?thesis by (auto simp add: positive_def)
  qed
  then show "isFinite (f64_of_int k)" and "valof (f64_of_int k) = real_of_int k" by simp_all
qed

lemma half_value: "isFinite (f64_const 1 2)" "valof (f64_const 1 2) = 1 / 2"
proof -
  have "f64_const 1 2 = Finite False 1 (- 1)" by code_simp
  then show "isFinite (f64_const 1 2)" "valof (f64_const 1 2) = 1 / 2"
    by (simp_all add: power_int_minus)
qed

section \<open>Facts about the cell-based geometry\<close>

lemma clamp_low: "k \<le>s (if x <s k then k else x)" for x k :: goint
  by (simp add: word_sle_eq word_sless_alt)

lemma clamp_both: "(let y = (if k <s x then k else x) in if y <s k then k else y) = k"
  for x k :: goint
proof -
  have "\<not> k <s x \<Longrightarrow> \<not> x <s k \<Longrightarrow> x = k"
    by (rule signed_word_eqI) (simp add: word_sless_alt)
  then show ?thesis
    by (auto simp: Let_def word_sless_alt)
qed

lemma clamp_nonzero: "0 <s k \<Longrightarrow> (if x <s k then k else x) \<noteq> 0" for x k :: goint
  by (auto simp: word_sless_alt)

text \<open>
  C7.  For every image size, every terminal size (zero, negative and overflowing ones
  included) and every treatment of the conversions that Go leaves to the implementation,
  \<open>calculateOptimalRenderSize\<close> returns a width of at least 10 and a height of at least
  5, so neither is zero; for a terminal of 0 by 0 cells it returns exactly 10 by 5.
\<close>

theorem calculateOptimalRenderSize_minimum:
  "10 \<le>s fst (calculateOptimalRenderSize cvt imgWidth imgHeight termWidth termHeight)
   \<and> 5 \<le>s snd (calculateOptimalRenderSize cvt imgWidth imgHeight termWidth termHeight)
   \<and> fst (calculateOptimalRenderSize cvt imgWidth imgHeight termWidth termHeight) \<noteq> 0
   \<and> snd (calculateOptimalRenderSize cvt imgWidth imgHeight termWidth termHeight) \<noteq> 0
   \<and> calculateOptimalRenderSize cvt imgWidth imgHeight 0 0 = (10, 5)"
proof (intro conjI)
  show "10 \<le>s fst (calculateOptimalRenderSize cvt imgWidth imgHeight termWidth termHeight)"
    unfolding calculateOptimalRenderSize_def Let_def fst_conv by (rule clamp_low)
  show "5 \<le>s snd (calculateOptimalRenderSize cvt imgWidth imgHeight termWidth termHeight)"
    unfolding calculateOptimalRenderSize_def Let_def snd_conv by (rule clamp_low)
  show "fst (calculateOptimalRenderSize cvt imgWidth imgHeight termWidth termHeight) \<noteq> 0"
    unfolding calculateOptimalRenderSize_def Let_def fst_conv by (rule clamp_nonzero) (simp add: word_sless_alt)
  show "snd (calculateOptimalRenderSize cvt imgWidth imgHeight termWidth termHeight) \<noteq> 0"
    unfolding calculateOptimalRenderSize_def Let_def snd_conv by (rule clamp_nonzero) (simp add: word_sless_alt)
  have w: "((0::goint) <s 10) = True" and h: "((0::goint) - 2 <s 5) = True"
    by (simp_all add: word_sless_alt)
  have cb: "(if (if k <s x then k else x) <s k then k else (if k <s x then k else x)) = k"
    for x k :: goint
    using clamp_both [of k x] by (simp only: Let_def)
  show "calculateOptimalRenderSize cvt imgWidth imgHeight 0 0 = (10, 5)"
    unfolding calculateOptimalRenderSize_def Let_def by (simp only: w h if_True cb)
qed

lemma calculateOptimalRenderSize_bounds:
  "10 \<le>s fst (calculateOptimalRenderSize cvt w h cw ch)
   \<and> fst (calculateOptimalRenderSize cvt w h cw ch) \<le>s (if cw <s 10 then 10 else cw)
   \<and> 5 \<le>s snd (calculateOptimalRenderSize cvt w h cw ch)
   \<and> snd (calculateOptimalRenderSize cvt w h cw ch) \<le>s (if ch - 2 <s 5 then 5 else ch - 2)"
proof -
  have hi: "(if (if m <s x then m else x) <s k then k else (if m <s x then m else x)) \<le>s m"
    if "k \<le>s m" for x k m :: goint
    using that by (simp add: word_sle_eq word_sless_alt)
  have w10: "10 \<le>s (if cw <s 10 then 10 else cw)"
    by (rule clamp_low)
  have h5: "5 \<le>s (if ch - 2 <s 5 then 5 else ch - 2)"
    by (rule clamp_low)
  show ?thesis
    unfolding calculateOptimalRenderSize_def Let_def fst_conv snd_conv
    by (intro conjI clamp_low hi w10 h5)
qed

text \<open>
  The integer calculation \<open>calcR\<close> agrees with \<open>calculateOptimalRenderSize\<close>, and on it
  the effect of a second application can be read off: the two roundings of a quotient
  leave its integer part or make it one less.
\<close>

lemma heightFor_bounds:
  assumes W: "1 \<le> W" "W < 2 ^ 31" and H: "1 \<le> H" "H < 2 ^ 31" and M: "1 \<le> M" "M < 2 ^ 16"
  shows "2 * W * heightFor W H M \<le> M * H" and "M * H \<le> 2 * W * (heightFor W H M + 1)"
    and "0 \<le> heightFor W H M"
proof -
  note a = aspect_float [OF W H]
  note h = height_float [OF a M]
  have eq: "real_of_int M / (real_of_int W / real_of_int H) / 2 = real_of_int (M * H) / real_of_int (2 * W)"
    by simp
  have n: "near 3 (rne (rne (real_of_int M / rne (real_of_int W / real_of_int H)) / 2))
      (real_of_int (M * H) / real_of_int (2 * W))" using h(2) unfolding eq .
  have "M * H < 2 ^ 16 * 2 ^ 31" using M H by (intro mult_strict_mono) simp_all
  then have A: "0 < M * H" "M * H < 2 ^ 49" using M(1) H(1) by simp_all
  have B: "0 < 2 * W" "2 * W < 2 ^ 49" using W by simp_all
  from floor_near [OF n A B]
  show "2 * W * heightFor W H M \<le> M * H" and "M * H \<le> 2 * W * (heightFor W H M + 1)"
    and "0 \<le> heightFor W H M"
    by (simp_all add: heightFor_def)
qed

lemma widthFor_bounds:
  assumes W: "1 \<le> W" "W < 2 ^ 31" and H: "1 \<le> H" "H < 2 ^ 31" and N: "1 \<le> N" "N < 2 ^ 16"
  shows "H * widthFor W H N \<le> 2 * N * W" and "2 * N * W \<le> H * (widthFor W H N + 1)"
    and "0 \<le> widthFor W H N"
proof -
  note a = aspect_float [OF W H]
  note h = width_float [OF a N]
  have eq: "real_of_int N * (real_of_int W / real_of_int H) * 2 = real_of_int (2 * N * W) / real_of_int H"
    by simp
  have n: "near 3 (rne (rne (real_of_int N * rne (real_of_int W / real_of_int H)) * 2))
      (real_of_int (2 * N * W) / real_of_int H)" using h(2) unfolding eq .
  have "N * W < 2 ^ 16 * 2 ^ 31" using N W by (intro mult_strict_mono) simp_all
  then have A: "0 < 2 * N * W" "2 * N * W < 2 ^ 49" using N(1) W(1) by simp_all
  have B: "0 < H" "H < 2 ^ 49" using H by simp_all
  from floor_near [OF n A B]
  show "H * widthFor W H N \<le> 2 * N * W" and "2 * N * W \<le> H * (widthFor W H N + 1)"
    and "0 \<le> widthFor W H N"
    by (simp_all add: widthFor_def)
qed

lemma heightFor_example: "heightFor 10 10 12 = 6"
proof -
  have "rne 1 = 1" "rne 12 = 12" "rne 6 = 6"
    using rne_of_int [of 1] rne_of_int [of 12] rne_of_int [of 6] by simp_all
  then show ?thesis by (simp add: heightFor_def)
qed

lemma calcR_reapply:
  assumes W: "1 \<le> W" "W < 2 ^ 31" and H: "1 \<le> H" "H < 2 ^ 31"
    and M: "10 \<le> M" "M < 2 ^ 16" and N: "5 \<le> N" "N < 2 ^ 16"
    and r: "calcR W H M N = (rw, rh)" and r': "calcR rw (2 * rh) M N = (rw', rh')"
  shows "(rw' = rw \<and> (rh' = rh \<or> rh' = rh - 1))
       \<or> (rh' = rh \<and> (rw' = rw - 1 \<or> (rw' = rw + 1 \<and> rw = 10)))"
proof (cases "N < heightFor W H M")
  case False
  define j where "j = heightFor W H M"
  have "calcR W H M N = (M, max 5 j)" using False by (simp add: calcR_def j_def)
  with r have rw: "rw = M" and rh: "rh = max 5 j" by auto
  have rhN: "5 \<le> rh" "rh \<le> N" using False N by (simp_all add: rh j_def)
  define j' where "j' = heightFor M (2 * rh) M"
  have M1: "1 \<le> M" "M < 2 ^ 31" "M < 2 ^ 16" "0 < M" using M by simp_all
  have H2: "1 \<le> 2 * rh" "2 * rh < 2 ^ 31" using rhN N by simp_all
  note b = heightFor_bounds [OF M1(1,2) H2 M1(1,3), folded j'_def]
  have "M * (2 * j') \<le> M * (2 * rh)" using b(1) by (simp add: mult.assoc mult.left_commute)
  then have 1: "j' \<le> rh" using M1(4) by simp
  have "M * (2 * rh) \<le> M * (2 * (j' + 1))" using b(2) by (simp add: mult.assoc mult.left_commute)
  then have 2: "rh \<le> j' + 1" using M1(4) by simp
  have "\<not> N < j'" using 1 rhN by simp
  then have "calcR rw (2 * rh) M N = (M, max 5 j')" by (simp add: calcR_def rw j'_def)
  with r' have "rw' = M" "rh' = max 5 j'" by auto
  with 1 2 rhN rw show ?thesis by auto
next
  case True
  define j where "j = heightFor W H M"
  define i where "i = widthFor W H N"
  have "calcR W H M N = (max 10 (min M i), N)" using True by (simp add: calcR_def i_def)
  with r have rh: "rh = N" and rw: "rw = max 10 (min M i)" by auto
  have jN: "N + 1 \<le> j" using True by (simp add: j_def)
  have M1: "1 \<le> M" "M < 2 ^ 16" "0 < M" using M by simp_all
  have N1: "1 \<le> N" "0 < N" "0 < N + 1" using N by simp_all
  have Hpos: "0 < H" using H by simp
  note hb = heightFor_bounds [OF W H M1(1,2), folded j_def]
  note wb = widthFor_bounds [OF W H N1(1) N(2), folded i_def]
  have "2 * W * (N + 1) \<le> 2 * W * j" using jN W by (intro mult_left_mono) simp_all
  with hb(1) have k1: "2 * W * (N + 1) \<le> M * H" by linarith
  have c1: "(H * i) * (N + 1) \<le> (2 * N * W) * (N + 1)"
    using wb(1) N1 by (intro mult_right_mono) simp_all
  have c2: "N * (2 * W * (N + 1)) \<le> N * (M * H)"
    using k1 N1 by (intro mult_left_mono) simp_all
  have e1: "(2 * N * W) * (N + 1) = N * (2 * W * (N + 1))" by (simp add: algebra_simps)
  have e2: "N * (M * H) = H * (N * M)" by (simp add: algebra_simps)
  have e3: "(H * i) * (N + 1) = H * (i * (N + 1))" by (simp add: algebra_simps)
  have "H * (i * (N + 1)) \<le> H * (N * M)" using c1 c2 e1 e2 e3 by linarith
  then have k2: "i * (N + 1) \<le> N * M" using Hpos by simp
  have "N * M < (N + 1) * M" using M1(3) by (simp add: algebra_simps)
  with k2 have "i * (N + 1) < M * (N + 1)" by (simp add: mult.commute)
  then have iM: "i < M" using N1(3) by simp
  then have rw2: "rw = max 10 i" using rw by simp
  have rwM: "10 \<le> rw" "rw \<le> M" using rw2 iM M by simp_all
  define j' where "j' = heightFor rw (2 * N) M"
  define i' where "i' = widthFor rw (2 * N) N"
  have W2: "1 \<le> rw" "rw < 2 ^ 31" "0 < rw" using rwM M by simp_all
  have H2: "1 \<le> 2 * N" "2 * N < 2 ^ 31" using N by simp_all
  note hb' = heightFor_bounds [OF W2(1,2) H2 M1(1,2), folded j'_def]
  note wb' = widthFor_bounds [OF W2(1,2) H2 N1(1) N(2), folded i'_def]
  have "N * (2 * i') \<le> N * (2 * rw)" using wb'(1) by (simp add: algebra_simps)
  then have w1: "i' \<le> rw" using N1(2) by simp
  have "N * (2 * rw) \<le> N * (2 * (i' + 1))" using wb'(2) by (simp add: algebra_simps)
  then have w2: "rw \<le> i' + 1" using N1(2) by simp
  show ?thesis
  proof (cases "N < j'")
    case True
    then have "calcR rw (2 * rh) M N = (max 10 (min M i'), N)"
      by (simp add: calcR_def rh j'_def i'_def)
    with r' have "rw' = max 10 (min M i')" "rh' = N" by auto
    with w1 w2 rwM rh show ?thesis by auto
  next
    case False
    then have "calcR rw (2 * rh) M N = (M, max 5 j')"
      by (simp add: calcR_def rh j'_def)
    with r' have res: "rw' = M" "rh' = max 5 j'" by auto
    have "2 * (M * N) \<le> 2 * (rw * (j' + 1))" using hb'(2) by (simp add: algebra_simps)
    then have P: "M * N \<le> rw * (j' + 1)" by simp
    have j'N: "j' \<le> N" using False by simp
    show ?thesis
    proof (cases "10 \<le> i")
      case True
      then have rwi: "rw = i" using rw2 by simp
      have "rw * (j' + 1) \<le> rw * (N + 1)" using j'N W2 by (intro mult_left_mono) simp_all
      with P k2 rwi have q: "i * (N + 1) = N * M" by (simp add: mult.commute)
      then have "H * (i * (N + 1)) = H * (N * M)" by simp
      with c1 c2 e1 e2 e3 have "(H * i) * (N + 1) = (2 * N * W) * (N + 1)" by linarith
      then have "H * i = 2 * N * W" using N1(3) by simp
      then have "real_of_int (H * i) = real_of_int (2 * N * W)" by simp
      then have "real_of_int i / real_of_int (2 * N) = real_of_int W / real_of_int H"
        using Hpos N1(2) by (simp add: field_simps)
      then have "heightFor i (2 * N) M = heightFor W H M" by (simp only: heightFor_def)
      then have "j' = j" by (simp add: j'_def j_def rwi)
      with jN j'N show ?thesis by simp
    next
      case False
      then have rw10: "rw = 10" using rw2 by simp
      have P': "M * N \<le> 10 * j' + 10" using P by (simp add: rw10)
      have M12: "M \<le> 12"
      proof (rule ccontr)
        assume "\<not> M \<le> 12"
        then have "13 * N \<le> M * N" using N1 by (intro mult_right_mono) simp_all
        from this P' have "13 * N \<le> 10 * j' + 10" by (rule order_trans)
        with j'N N(1) show False by linarith
      qed
      have "M \<noteq> 12"
      proof
        assume m: "M = 12"
        with P' j'N N(1) have "N = 5" by simp
        then have "j' = 6" using heightFor_example by (simp add: j'_def rw10 m)
        with j'N \<open>N = 5\<close> show False by simp
      qed
      with M12 M(1) consider "M = 10" | "M = 11" by linarith
      then show ?thesis
      proof cases
        case 1
        with P' have "N \<le> j' + 1" by simp
        with j'N N(1) res rw10 rh 1 show ?thesis by auto
      next
        case 2
        with P' j'N N(1) have "j' = N" by simp
        with N(1) res rw10 rh 2 show ?thesis by auto
      qed
    qed
  qed
qed

lemma f64_to_int_pos:
  assumes "positive x v" "\<lfloor>v\<rfloor> < 2 ^ 63"
  shows "f64_to_int cvt x = word_of_int \<lfloor>v\<rfloor>"
proof -
  from assms(1) have "0 < v" using positive_valof by blast
  then have "0 \<le> \<lfloor>v\<rfloor>" by simp
  then have "- (2 ^ 63) \<le> \<lfloor>v\<rfloor>" by (rule order_trans [rotated]) simp
  with assms(2) positive_trunc [OF assms(1)] show ?thesis by (simp add: f64_to_int_def)
qed

lemma sint64: "- (2 ^ 63) \<le> k \<Longrightarrow> k < 2 ^ 63 \<Longrightarrow> sint (word_of_int k :: goint) = k"
  by (simp add: signed_of_int signed_take_bit_int_eq_self)

lemma height_word:
  assumes W: "1 \<le> W" "W < 2 ^ 31" and H: "1 \<le> H" "H < 2 ^ 31" and M: "1 \<le> M" "M < 2 ^ 16"
  shows "f64_to_int cvt
           (f64_div (f64_div (f64_of_int M) (f64_div (f64_of_int W) (f64_of_int H))) (f64_of_int 2))
         = word_of_int (heightFor W H M)"
    and "heightFor W H M < 2 ^ 47"
proof -
  note a = aspect_float [OF W H]
  note h = height_float [OF a M]
  note b = heightFor_bounds [OF W H M]
  have "M * H < 2 ^ 16 * 2 ^ 31" using M H by (intro mult_strict_mono) simp_all
  then have mh: "M * H < 2 ^ 47" by simp
  have "1 * heightFor W H M \<le> (2 * W) * heightFor W H M"
    using W(1) b(3) by (intro mult_right_mono) simp_all
  with b(1) mh show j: "heightFor W H M < 2 ^ 47" by linarith
  then have "heightFor W H M < 2 ^ 63" by (rule less_trans) simp
  then show "f64_to_int cvt
           (f64_div (f64_div (f64_of_int M) (f64_div (f64_of_int W) (f64_of_int H))) (f64_of_int 2))
         = word_of_int (heightFor W H M)"
    unfolding heightFor_def by (intro f64_to_int_pos [OF h(1)])
qed

lemma width_word:
  assumes W: "1 \<le> W" "W < 2 ^ 31" and H: "1 \<le> H" "H < 2 ^ 31" and N: "1 \<le> N" "N < 2 ^ 16"
  shows "f64_to_int cvt
           (f64_mul (f64_mul (f64_of_int N) (f64_div (f64_of_int W) (f64_of_int H))) (f64_of_int 2))
         = word_of_int (widthFor W H N)"
    and "widthFor W H N < 2 ^ 48"
proof -
  note a = aspect_float [OF W H]
  note h = width_float [OF a N]
  note b = widthFor_bounds [OF W H N]
  have "N * W < 2 ^ 16 * 2 ^ 31" using N W by (intro mult_strict_mono) simp_all
  then have nw: "2 * N * W < 2 ^ 48" by simp
  have "1 * widthFor W H N \<le> H * widthFor W H N"
    using H(1) b(3) by (intro mult_right_mono) simp_all
  with b(1) nw show j: "widthFor W H N < 2 ^ 48" by linarith
  then have "widthFor W H N < 2 ^ 63" by (rule less_trans) simp
  then show "f64_to_int cvt
           (f64_mul (f64_mul (f64_of_int N) (f64_div (f64_of_int W) (f64_of_int H))) (f64_of_int 2))
         = word_of_int (widthFor W H N)"
    unfolding widthFor_def by (intro f64_to_int_pos [OF h(1)])
qed

lemma calculateOptimalRenderSize_calcR:
  assumes W: "1 \<le> W" "W < 2 ^ 31" and H: "1 \<le> H" "H < 2 ^ 31"
    and M: "10 \<le> M" "M < 2 ^ 16" and N: "5 \<le> N" "N < 2 ^ 16"
    and tw: "(if tw <s 10 then 10 else tw) = word_of_int M"
    and th: "(if th - 2 <s 5 then 5 else th - 2) = word_of_int N"
  shows "calculateOptimalRenderSize cvt (word_of_int W) (word_of_int H) tw th
         = (word_of_int (fst (calcR W H M N)), word_of_int (snd (calcR W H M N)))"
proof -
  define j where "j = heightFor W H M"
  define i where "i = widthFor W H N"
  have M1: "1 \<le> M" and N1: "1 \<le> N" using M N by simp_all
  note hw = height_word [OF W H M1 M(2), folded j_def]
  note ww = width_word [OF W H N1 N(2), folded i_def]
  note hb = heightFor_bounds(3) [OF W H M1 M(2), folded j_def]
  note wb = widthFor_bounds(3) [OF W H N1 N(2), folded i_def]
  have s: "sint (word_of_int W :: goint) = W" "sint (word_of_int H :: goint) = H"
    "sint (word_of_int M :: goint) = M" "sint (word_of_int N :: goint) = N"
    "sint (word_of_int j :: goint) = j" "sint (word_of_int i :: goint) = i"
    using W H M N hw(2) ww(2) hb wb by (simp_all add: sint64)
  show ?thesis
  proof (cases "N < j")
    case True
    with M(1) N(1) show ?thesis
      unfolding calculateOptimalRenderSize_def Let_def tw th
      by (simp add: s hw(1) ww(1) word_sless_alt calcR_def j_def [symmetric] i_def [symmetric]
          max_def min_def)
  next
    case False
    with M(1) N(1) show ?thesis
      unfolding calculateOptimalRenderSize_def Let_def tw th
      by (simp add: s hw(1) ww(1) word_sless_alt calcR_def j_def [symmetric] i_def [symmetric]
          max_def min_def)
  qed
qed

lemma calcR_range:
  assumes "10 \<le> M" "5 \<le> N"
  shows "10 \<le> fst (calcR W H M N)" "fst (calcR W H M N) \<le> M"
    "5 \<le> snd (calcR W H M N)" "snd (calcR W H M N) \<le> N"
  using assms by (auto simp add: calcR_def)

lemma maxWidth_word:
  fixes tw :: goint
  shows "(if tw <s 10 then 10 else tw) = word_of_int (max 10 (sint tw))"
  by (simp add: word_sless_alt max_def)

lemma maxHeight_word:
  fixes th :: goint
  assumes "0 \<le> sint th"
  shows "(if th - 2 <s 5 then 5 else th - 2) = word_of_int (max 5 (sint th - 2))"
proof -
  have "th - 2 = word_of_int (sint th - 2)" by simp
  moreover have "sint th < 2 ^ 63" using sint_lt [of th] by simp
  ultimately have "sint (th - 2) = sint th - 2"
    using assms sint64 [of "sint th - 2"] by simp
  then show ?thesis by (simp add: word_sless_alt max_def)
qed

lemma reapply_words:
  assumes W: "1 \<le> sint imgWidth" "sint imgWidth < 2 ^ 31"
    and H: "1 \<le> sint imgHeight" "sint imgHeight < 2 ^ 31"
    and tw: "sint termWidth < 2 ^ 16"
    and th: "0 \<le> sint termHeight" "sint termHeight < 2 ^ 16"
    and r: "calculateOptimalRenderSize cvt imgWidth imgHeight termWidth termHeight = (rw, rh)"
    and r': "calculateOptimalRenderSize cvt rw (2 * rh) termWidth termHeight = (rw', rh')"
  shows "(rw' = rw \<and> (rh' = rh \<or> rh' = rh - 1))
       \<or> (rh' = rh \<and> (rw' = rw - 1 \<or> (rw' = rw + 1 \<and> rw = 10)))"
proof -
  define M where "M = max 10 (sint termWidth)"
  define N where "N = max 5 (sint termHeight - 2)"
  define W' where "W' = sint imgWidth"
  define H' where "H' = sint imgHeight"
  have M: "10 \<le> M" "M < 2 ^ 16" using tw by (simp_all add: M_def)
  have N: "5 \<le> N" "N < 2 ^ 16" using th by (simp_all add: N_def)
  have mw: "(if termWidth <s 10 then 10 else termWidth) = word_of_int M"
    unfolding M_def by (rule maxWidth_word)
  have mh: "(if termHeight - 2 <s 5 then 5 else termHeight - 2) = word_of_int N"
    unfolding N_def using th(1) by (rule maxHeight_word)
  obtain a b where ab: "calcR W' H' M N = (a, b)" by (cases "calcR W' H' M N")
  obtain a' b' where ab': "calcR a (2 * b) M N = (a', b')" by (cases "calcR a (2 * b) M N")
  have "calculateOptimalRenderSize cvt (word_of_int W') (word_of_int H') termWidth termHeight
      = (word_of_int a, word_of_int b)"
    using calculateOptimalRenderSize_calcR [OF W [folded W'_def] H [folded H'_def] M N mw mh, of cvt]
    by (simp add: ab)
  with r have 1: "rw = word_of_int a" "rh = word_of_int b" by (auto simp add: W'_def H'_def)
  note rg = calcR_range [OF M(1) N(1), of W' H', unfolded ab fst_conv snd_conv]
  have a: "1 \<le> a" "a < 2 ^ 31" using rg(1,2) M(2) by simp_all
  have b: "1 \<le> 2 * b" "2 * b < 2 ^ 31" using rg(3,4) N(2) by simp_all
  have "calculateOptimalRenderSize cvt (word_of_int a) (word_of_int (2 * b)) termWidth termHeight
      = (word_of_int a', word_of_int b')"
    using calculateOptimalRenderSize_calcR [OF a b M N mw mh, of cvt]
    by (simp add: ab')
  with r' have 2: "rw' = word_of_int a'" "rh' = word_of_int b'" by (auto simp add: 1)
  from calcR_reapply [OF W [folded W'_def] H [folded H'_def] M N ab ab']
  have "(a' = a \<and> (b' = b \<or> b' = b - 1)) \<or> (b' = b \<and> (a' = a - 1 \<or> (a' = a + 1 \<and> a = 10)))" .
  then show ?thesis by (auto simp add: 1 2)
qed

text \<open>
  C5 (as stated, fails on the code).  For a 1 by 128 image on a terminal of 11 by 7
  cells the calculation gives 10 by 5, the width raised to the minimum; applied to the
  pixel size 10 by 10 it gives 11 by 5.  For a 720 by 576 image on 18 by 9 cells it gives
  18 by 7; applied to 18 by 14 it gives 18 by 6, because the binary64 quotient
  \<open>18 / (18 / 14) / 2\<close> lies just below 7 and is truncated.  For a 640 by 480 image on 80
  by 25 cells it gives 61 by 23; applied to 61 by 46 it gives 60 by 23, because the
  product \<open>23 * (61 / 46) * 2\<close> lies just below 61.
\<close>

theorem calculateOptimalRenderSize_not_idempotent:
  "calculateOptimalRenderSize cvtInt 1 128 11 7 = (10, 5)
   \<and> calculateOptimalRenderSize cvtInt 10 (2 * 5) 11 7 = (11, 5)
   \<and> calculateOptimalRenderSize cvtInt 720 576 18 9 = (18, 7)
   \<and> calculateOptimalRenderSize cvtInt 18 (2 * 7) 18 9 = (18, 6)
   \<and> calculateOptimalRenderSize cvtInt 640 480 80 25 = (61, 23)
   \<and> calculateOptimalRenderSize cvtInt 61 (2 * 23) 80 25 = (60, 23)"
  by code_simp

text \<open>
  C5 (amended).  For an image of at least 1 and less than \<open>2\<^sup>3\<^sup>1\<close> pixels each way and a
  terminal of less than \<open>2\<^sup>1\<^sup>6\<close> columns and rows, re-applying the calculation to the
  half-block pixel size \<open>(rw, 2 * rh)\<close> of its own result, for the same terminal, gives
  \<open>(rw, rh)\<close> again or a size that differs from it by one cell in one direction: one row
  less, one column less, or one column more, the last only when the width had been raised
  to the minimum of 10.  This holds for every treatment of the conversions that Go leaves
  to the implementation.
\<close>

theorem calculateOptimalRenderSize_reapply:
  assumes "1 \<le> sint imgWidth" "sint imgWidth < 2 ^ 31"
    and "1 \<le> sint imgHeight" "sint imgHeight < 2 ^ 31"
    and "sint termWidth < 2 ^ 16"
    and "0 \<le> sint termHeight" "sint termHeight < 2 ^ 16"
  shows "(let (rw, rh) = calculateOptimalRenderSize cvt imgWidth imgHeight termWidth termHeight;
              (rw', rh') = calculateOptimalRenderSize cvt rw (2 * rh) termWidth termHeight
          in (rw' = rw \<and> (rh' = rh \<or> rh' = rh - 1))
             \<or> (rh' = rh \<and> (rw' = rw - 1 \<or> (rw' = rw + 1 \<and> rw = 10))))"
proof -
  obtain rw rh where r: "calculateOptimalRenderSize cvt imgWidth imgHeight termWidth termHeight = (rw, rh)"
    by (cases "calculateOptimalRenderSize cvt imgWidth imgHeight termWidth termHeight")
  obtain rw' rh' where r': "calculateOptimalRenderSize cvt rw (2 * rh) termWidth termHeight = (rw', rh')"
    by (cases "calculateOptimalRenderSize cvt rw (2 * rh) termWidth termHeight")
  from reapply_words [OF assms r r'] show ?thesis
    by (simp add: r r')
qed

theorem calculateOptimalRenderSize_reapply_witness:
  "1 \<le> sint (720 :: goint) \<and> sint (720 :: goint) < 2 ^ 31
   \<and> 1 \<le> sint (576 :: goint) \<and> sint (576 :: goint) < 2 ^ 31
   \<and> sint (18 :: goint) < 2 ^ 16 \<and> 0 \<le> sint (9 :: goint) \<and> sint (9 :: goint) < 2 ^ 16
   \<and> (let (rw, rh) = calculateOptimalRenderSize cvtInt 720 576 18 9;
            (rw', rh') = calculateOptimalRenderSize cvtInt rw (2 * rh) 18 9
        in (rw' = rw \<and> (rh' = rh \<or> rh' = rh - 1))
           \<or> (rh' = rh \<and> (rw' = rw - 1 \<or> (rw' = rw + 1 \<and> rw = 10))))"
  using calculateOptimalRenderSize_reapply
    [where imgWidth = 720 and imgHeight = 576 and termWidth = 18 and termHeight = 9 and cvt = cvtInt]
  by simp

section \<open>Facts about brightness and contrast\<close>

text \<open>
  The seven operations of \<open>adjustPixel\<close> one after the other: each result is finite and
  differs from the exact value by the rounding of that operation and by what the earlier
  errors have grown to.
\<close>

lemma clampReal_mono: "x \<le> y \<Longrightarrow> clampReal x \<le> clampReal y"
  by (simp add: clampReal_def)

lemma clampReal_range: "0 \<le> clampReal x" "clampReal x \<le> 255"
  by (simp_all add: clampReal_def)

lemma prod_err:
  fixes v w k :: real
  assumes "\<bar>v - w\<bar> \<le> d" "\<bar>k\<bar> \<le> K"
  shows "\<bar>v * k - w * k\<bar> \<le> d * K"
proof -
  have "v * k - w * k = (v - w) * k" by (simp add: algebra_simps)
  then have "\<bar>v * k - w * k\<bar> = \<bar>v - w\<bar> * \<bar>k\<bar>" by (simp only: abs_mult)
  also have "\<dots> \<le> d * K" using assms by (intro mult_mono) simp_all
  finally show ?thesis .
qed

lemma prod_bound:
  fixes v k :: real
  assumes "\<bar>v\<bar> \<le> V" "\<bar>k\<bar> \<le> K"
  shows "\<bar>v * k\<bar> \<le> V * K"
proof -
  have "\<bar>v * k\<bar> = \<bar>v\<bar> * \<bar>k\<bar>" by (simp add: abs_mult)
  also have "\<dots> \<le> V * K" using assms by (intro mult_mono) simp_all
  finally show ?thesis .
qed

lemma err_add:
  fixes a b c :: real
  shows "\<bar>a - b\<bar> \<le> d1 \<Longrightarrow> \<bar>b - c\<bar> \<le> d2 \<Longrightarrow> d1 + d2 \<le> d \<Longrightarrow> \<bar>a - c\<bar> \<le> d"
  by linarith

lemma mag_near:
  fixes v p :: real
  shows "\<bar>v - p\<bar> \<le> d \<Longrightarrow> d \<le> 1 \<Longrightarrow> \<bar>p\<bar> \<le> P \<Longrightarrow> \<bar>v\<bar> \<le> P + 1"
  by linarith

lemma mag_add:
  fixes v c :: real
  shows "\<bar>v\<bar> \<le> V \<Longrightarrow> \<bar>c\<bar> \<le> C \<Longrightarrow> V + C \<le> X \<Longrightarrow> \<bar>v + c\<bar> \<le> X \<and> \<bar>v - c\<bar> \<le> X \<and> \<bar>c + v\<bar> \<le> X"
  by linarith

lemma quot_err:
  fixes v w :: real
  assumes "\<bar>v - w\<bar> \<le> d"
  shows "\<bar>v / 255 - w / 255\<bar> \<le> d / 255"
proof -
  have "v / 255 - w / 255 = (v - w) / 255" by (simp add: field_simps)
  then have "\<bar>v / 255 - w / 255\<bar> = \<bar>v - w\<bar> / 255" by (simp only: abs_divide abs_numeral)
  also have "\<dots> \<le> d / 255" using assms by (rule divide_right_mono) simp
  finally show ?thesis .
qed

lemma quot_bound:
  fixes v :: real
  assumes "\<bar>v\<bar> \<le> V"
  shows "\<bar>v / 255\<bar> \<le> V / 255"
proof -
  have "\<bar>v / 255\<bar> = \<bar>v\<bar> / 255" by (simp only: abs_divide abs_numeral)
  also have "\<dots> \<le> V / 255" using assms by (rule divide_right_mono) simp
  finally show ?thesis .
qed

lemma adjusted_error:
  assumes b: "isFinite brightness" "\<bar>valof brightness\<bar> \<le> 1024"
    and k: "isFinite contrast" "\<bar>valof contrast\<bar> \<le> 1024"
  shows "isFinite
     (f64_mul
       (f64_add
          (f64_mul
             (f64_sub
                (f64_div (f64_add (f64_of_int (uint value)) (f64_mul brightness (f64_of_int 255)))
                   (f64_of_int 255))
                (f64_const 1 2))
             contrast)
          (f64_const 1 2))
       (f64_of_int 255))"
    and "\<bar>valof
     (f64_mul
       (f64_add
          (f64_mul
             (f64_sub
                (f64_div (f64_add (f64_of_int (uint value)) (f64_mul brightness (f64_of_int 255)))
                   (f64_of_int 255))
                (f64_const 1 2))
             contrast)
          (f64_const 1 2))
       (f64_of_int 255))
     - adjustedReal value (valof brightness) (valof contrast)\<bar> \<le> 1 / 2 ^ 16"
proof -
  define c where "c = real_of_int (uint value)"
  define vb where "vb = valof brightness"
  define vk where "vk = valof contrast"
  have c: "\<bar>c\<bar> \<le> 255"
  proof -
    have "uint value < 2 ^ 8" using uint_lt2p [of "value"] by simp
    then have "uint value \<le> 255" by simp
    then have "real_of_int (uint value) \<le> real_of_int 255" by (rule iffD2 [OF of_int_le_iff])
    then have 1: "c \<le> 255" unfolding c_def by simp
    have "0 \<le> uint value" by simp
    then have "real_of_int 0 \<le> real_of_int (uint value)" by (rule iffD2 [OF of_int_le_iff])
    then have "0 \<le> c" unfolding c_def by simp
    with 1 show ?thesis by simp
  qed
  have "uint value < 2 ^ 53"
  proof -
    have "uint value < 2 ^ 8" using uint_lt2p [of "value"] by simp
    then show ?thesis by simp
  qed
  then have fc: "isFinite (f64_of_int (uint value))" "valof (f64_of_int (uint value)) = c"
    using of_int_value [of "uint value"] by (simp_all add: c_def)
  have f255: "isFinite (f64_of_int 255)" "valof (f64_of_int 255) = 255"
    using of_int_value [of 255] by simp_all
  note h = half_value
  define s1 where "s1 = f64_mul brightness (f64_of_int 255)"
  define s2 where "s2 = f64_add (f64_of_int (uint value)) s1"
  define s3 where "s3 = f64_div s2 (f64_of_int 255)"
  define s4 where "s4 = f64_sub s3 (f64_const 1 2)"
  define s5 where "s5 = f64_mul s4 contrast"
  define s6 where "s6 = f64_add s5 (f64_const 1 2)"
  define s7 where "s7 = f64_mul s6 (f64_of_int 255)"
  define w1 where "w1 = vb * 255"
  define w2 where "w2 = c + w1"
  define w3 where "w3 = w2 / 255"
  define w4 where "w4 = w3 - 1 / 2"
  define w5 where "w5 = w4 * vk"
  define w6 where "w6 = w5 + 1 / 2"
  define w7 where "w7 = w6 * 255"
  have vbk: "\<bar>vb\<bar> \<le> 1024" "\<bar>vk\<bar> \<le> 1024" using b(2) k(2) by (simp_all add: vb_def vk_def)
  have n255: "\<bar>255 :: real\<bar> \<le> 255" "\<bar>1 / 2 :: real\<bar> \<le> 1" by simp_all
  have b1: "\<bar>w1\<bar> \<le> 1024 * 255" unfolding w1_def using vbk(1) n255(1) by (rule prod_bound)
  then have "\<bar>valof brightness * valof (f64_of_int 255)\<bar> \<le> 2 ^ 18"
    by (simp add: f255 vb_def w1_def)
  from mul_err [OF b(1) f255(1) this]
  have e1: "isFinite s1" "\<bar>valof s1 - w1\<bar> \<le> 2 ^ 18 / 2 ^ 52"
    by (simp_all add: s1_def f255 vb_def w1_def)
  have v1: "\<bar>valof s1\<bar> \<le> 1024 * 255 + 1" using e1(2) _ b1 by (rule mag_near) simp
  have "\<bar>valof (f64_of_int (uint value)) + valof s1\<bar> \<le> 2 ^ 19"
    unfolding fc using mag_add [OF v1 c, of "2 ^ 19"] by simp
  from add_err [OF fc(1) e1(1) this]
  have e2': "isFinite s2" "\<bar>valof s2 - (c + valof s1)\<bar> \<le> 2 ^ 19 / 2 ^ 52"
    by (simp_all add: s2_def fc)
  have "\<bar>(c + valof s1) - w2\<bar> \<le> 2 ^ 18 / 2 ^ 52" using e1(2) by (simp add: w2_def)
  from err_add [OF e2'(2) this, of "1 / 2 ^ 32"]
  have e2: "\<bar>valof s2 - w2\<bar> \<le> 1 / 2 ^ 32" by simp
  have b2: "\<bar>w2\<bar> \<le> 261375" unfolding w2_def using mag_add [OF b1 c, of 261375] by simp
  have v2: "\<bar>valof s2\<bar> \<le> 261375 + 1" using e2 _ b2 by (rule mag_near) simp
  have "\<bar>valof s2 / 255\<bar> \<le> (261375 + 1) / 255" using v2 by (rule quot_bound)
  then have "\<bar>valof s2 / valof (f64_of_int 255)\<bar> \<le> 2 ^ 11" by (simp add: f255)
  from div_err [OF e2'(1) f255(1) _ this]
  have e3': "isFinite s3" "\<bar>valof s3 - valof s2 / 255\<bar> \<le> 2 ^ 11 / 2 ^ 52"
    by (simp_all add: s3_def f255)
  have "\<bar>valof s2 / 255 - w3\<bar> \<le> 1 / 2 ^ 32 / 255" unfolding w3_def using e2 by (rule quot_err)
  from err_add [OF e3'(2) this, of "1 / 2 ^ 38"]
  have e3: "\<bar>valof s3 - w3\<bar> \<le> 1 / 2 ^ 38" by simp
  have "\<bar>w2 / 255\<bar> \<le> 261375 / 255" using b2 by (rule quot_bound)
  then have b3: "\<bar>w3\<bar> \<le> 1025" by (simp add: w3_def)
  have v3: "\<bar>valof s3\<bar> \<le> 1025 + 1" using e3 _ b3 by (rule mag_near) simp
  have "\<bar>valof s3 - valof (f64_const 1 2)\<bar> \<le> 2 ^ 11"
    unfolding h using mag_add [OF v3 n255(2), of "2 ^ 11"] by simp
  from sub_err [OF e3'(1) h(1) this]
  have e4': "isFinite s4" "\<bar>valof s4 - (valof s3 - 1 / 2)\<bar> \<le> 2 ^ 11 / 2 ^ 52"
    by (simp_all add: s4_def h)
  have "\<bar>(valof s3 - 1 / 2) - w4\<bar> \<le> 1 / 2 ^ 38" using e3 by (simp add: w4_def)
  from err_add [OF e4'(2) this, of "1 / 2 ^ 37"]
  have e4: "\<bar>valof s4 - w4\<bar> \<le> 1 / 2 ^ 37" by simp
  have b4: "\<bar>w4\<bar> \<le> 1026" unfolding w4_def using mag_add [OF b3 n255(2), of 1026] by simp
  have v4: "\<bar>valof s4\<bar> \<le> 1026 + 1" using e4 _ b4 by (rule mag_near) simp
  have "\<bar>valof s4 * vk\<bar> \<le> (1026 + 1) * 1024" using v4 vbk(2) by (rule prod_bound)
  then have "\<bar>valof s4 * valof contrast\<bar> \<le> 2 ^ 21" by (simp add: vk_def)
  from mul_err [OF e4'(1) k(1) this]
  have e5': "isFinite s5" "\<bar>valof s5 - valof s4 * vk\<bar> \<le> 2 ^ 21 / 2 ^ 52"
    by (simp_all add: s5_def vk_def)
  have "\<bar>valof s4 * vk - w5\<bar> \<le> 1 / 2 ^ 37 * 1024"
    unfolding w5_def using e4 vbk(2) by (rule prod_err)
  from err_add [OF e5'(2) this, of "1 / 2 ^ 26"]
  have e5: "\<bar>valof s5 - w5\<bar> \<le> 1 / 2 ^ 26" by simp
  have b5: "\<bar>w5\<bar> \<le> 1026 * 1024" unfolding w5_def using b4 vbk(2) by (rule prod_bound)
  have v5: "\<bar>valof s5\<bar> \<le> 1026 * 1024 + 1" using e5 _ b5 by (rule mag_near) simp
  have "\<bar>valof s5 + valof (f64_const 1 2)\<bar> \<le> 2 ^ 21"
    unfolding h using mag_add [OF v5 n255(2), of "2 ^ 21"] by simp
  from add_err [OF e5'(1) h(1) this]
  have e6': "isFinite s6" "\<bar>valof s6 - (valof s5 + 1 / 2)\<bar> \<le> 2 ^ 21 / 2 ^ 52"
    by (simp_all add: s6_def h)
  have "\<bar>(valof s5 + 1 / 2) - w6\<bar> \<le> 1 / 2 ^ 26" using e5 by (simp add: w6_def)
  from err_add [OF e6'(2) this, of "1 / 2 ^ 25"]
  have e6: "\<bar>valof s6 - w6\<bar> \<le> 1 / 2 ^ 25" by simp
  have b6: "\<bar>w6\<bar> \<le> 1026 * 1024 + 1"
    unfolding w6_def using mag_add [OF b5 n255(2), of "1026 * 1024 + 1"] by simp
  have v6: "\<bar>valof s6\<bar> \<le> (1026 * 1024 + 1) + 1" using e6 _ b6 by (rule mag_near) simp
  have "\<bar>valof s6 * 255\<bar> \<le> ((1026 * 1024 + 1) + 1) * 255" using v6 n255(1) by (rule prod_bound)
  then have "\<bar>valof s6 * valof (f64_of_int 255)\<bar> \<le> 2 ^ 28" by (simp add: f255)
  from mul_err [OF e6'(1) f255(1) this]
  have e7': "isFinite s7" "\<bar>valof s7 - valof s6 * 255\<bar> \<le> 2 ^ 28 / 2 ^ 52"
    by (simp_all add: s7_def f255)
  have "\<bar>valof s6 * 255 - w7\<bar> \<le> 1 / 2 ^ 25 * 255"
    unfolding w7_def using e6 n255(1) by (rule prod_err)
  from err_add [OF e7'(2) this, of "1 / 2 ^ 16"]
  have e7: "\<bar>valof s7 - w7\<bar> \<le> 1 / 2 ^ 16" by simp
  have x: "(f64_mul
       (f64_add
          (f64_mul
             (f64_sub
                (f64_div (f64_add (f64_of_int (uint value)) (f64_mul brightness (f64_of_int 255)))
                   (f64_of_int 255))
                (f64_const 1 2))
             contrast)
          (f64_const 1 2))
       (f64_of_int 255)) = s7"
    by (simp add: s7_def s6_def s5_def s4_def s3_def s2_def s1_def)
  have E: "adjustedReal value (valof brightness) (valof contrast) = w7"
    by (simp add: adjustedReal_def w7_def w6_def w5_def w4_def w3_def w2_def w1_def c_def vb_def vk_def)
  show "isFinite
     (f64_mul
       (f64_add
          (f64_mul
             (f64_sub
                (f64_div (f64_add (f64_of_int (uint value)) (f64_mul brightness (f64_of_int 255)))
                   (f64_of_int 255))
                (f64_const 1 2))
             contrast)
          (f64_const 1 2))
       (f64_of_int 255))"
    unfolding x by (rule e7'(1))
  show "\<bar>valof
     (f64_mul
       (f64_add
          (f64_mul
             (f64_sub
                (f64_div (f64_add (f64_of_int (uint value)) (f64_mul brightness (f64_of_int 255)))
                   (f64_of_int 255))
                (f64_const 1 2))
             contrast)
          (f64_const 1 2))
       (f64_of_int 255))
     - adjustedReal value (valof brightness) (valof contrast)\<bar> \<le> 1 / 2 ^ 16"
    unfolding x E by (rule e7)
qed

lemma abs_interval:
  fixes a b :: real
  shows "\<bar>a - b\<bar> \<le> d \<Longrightarrow> b - d \<le> a" and "\<bar>a - b\<bar> \<le> d \<Longrightarrow> a \<le> b + d"
  by linarith+

text \<open>
  C2 (as stated, fails on the code).  For the channel value 0, brightness 0.5 and
  contrast 2 the code computes \<open>((0 + 127.5) / 255 - 0.5) * 2 + 0.5) * 255 = 127.5\<close> and
  returns 127; contrast first and brightness afterwards gives \<open>-127.5 + 127.5 = 0\<close>.
  Every operation is exact at this input.  For a brightness as large as \<open>2\<^sup>1\<^sup>0\<^sup>2\<^sup>3\<close> and
  contrast 0 the product \<open>b * 255\<close> overflows to an infinity, its product with 0 is not
  a number, no comparison of the clamp holds, and the result is what the platform makes
  of the conversion: nothing is clamped.
\<close>

theorem adjustPixel_order_counterexample:
  "adjustPixel cvtByte 0 (Finite False 1 (- 1)) (Finite False 1 1) = 127
   \<and> adjustPixelSpec cvtByte 0 (Finite False 1 (- 1)) (Finite False 1 1) = 0
   \<and> adjustPixel (\<lambda>x. 7) 0 (Finite False 1 1023) (Finite False 0 0) = 7
   \<and> adjustPixel (\<lambda>x. 200) 0 (Finite False 1 1023) (Finite False 0 0) = 200"
  by code_simp

text \<open>
  C2 (amended).  For every channel value \<open>c\<close> and all finite brightness \<open>b\<close> and contrast
  \<open>k\<close> of magnitude at most 1024, \<open>adjustPixel\<close> adds the brightness term to the channel
  first, applies contrast around mid-gray to that sum, clamps the result to \<open>[0, 255]\<close>
  and truncates it: the byte returned is the integer part of the clamped exact value
  \<open>(c + 255 * b - 127.5) * k + 127.5\<close>, up to the rounding of the seven \<open>float64\<close>
  operations, which moves that value by less than \<open>2\<^sup>-\<^sup>1\<^sup>6\<close>.  The byte does not depend on
  how the platform converts what does not fit.
\<close>

theorem adjustPixel_brightness_first:
  assumes b: "isFinite brightness" "\<bar>valof brightness\<bar> \<le> 1024"
    and k: "isFinite contrast" "\<bar>valof contrast\<bar> \<le> 1024"
  shows "\<lfloor>clampReal (adjustedReal value (valof brightness) (valof contrast) - 1 / 2 ^ 16)\<rfloor>
           \<le> uint (adjustPixel cvt value brightness contrast)
       \<and> uint (adjustPixel cvt value brightness contrast)
           \<le> \<lfloor>clampReal (adjustedReal value (valof brightness) (valof contrast) + 1 / 2 ^ 16)\<rfloor>
       \<and> adjustPixel cvt value brightness contrast = adjustPixel cvtByte value brightness contrast"
proof -
  define x where "x =
     f64_mul
       (f64_add
          (f64_mul
             (f64_sub
                (f64_div (f64_add (f64_of_int (uint value)) (f64_mul brightness (f64_of_int 255)))
                   (f64_of_int 255))
                (f64_const 1 2))
             contrast)
          (f64_const 1 2))
       (f64_of_int 255)"
  define E where "E = adjustedReal value (valof brightness) (valof contrast)"
  define y where "y =
     (if f64_lt x (f64_of_int 0) then f64_of_int 0
      else if f64_lt (f64_of_int 255) x then f64_of_int 255 else x)"
  note e = adjusted_error [OF b k, of "value", folded x_def E_def]
  have f0: "isFinite (f64_of_int 0)" "valof (f64_of_int 0) = 0"
    using of_int_value [of 0] by simp_all
  have f255: "isFinite (f64_of_int 255)" "valof (f64_of_int 255) = 255"
    using of_int_value [of 255] by simp_all
  have lt0: "f64_lt x (f64_of_int 0) = (valof x < 0)"
    using lt_value [OF e(1) f0(1)] by (simp add: f0)
  have lt255: "f64_lt (f64_of_int 255) x = (255 < valof x)"
    using lt_value [OF f255(1) e(1)] by (simp add: f255)
  have y: "isFinite y" "valof y = clampReal (valof x)"
    using e(1) f0 f255 by (simp_all add: y_def lt0 lt255 clampReal_def)
  define t where "t = \<lfloor>clampReal (valof x)\<rfloor>"
  have t: "0 \<le> t" "t \<le> 255"
    using clampReal_range [of "valof x"] by (simp_all add: t_def floor_le_iff)
  have "f64_trunc y = Some t"
    using trunc_value [OF y(1)] clampReal_range(1) [of "valof x"] by (simp add: y(2) t_def)
  then have "f64_to_uint8 cvt' y = word_of_int t" for cvt'
    using t by (simp add: f64_to_uint8_def)
  moreover have "adjustPixel cvt' value brightness contrast = f64_to_uint8 cvt' y" for cvt'
    by (simp add: adjustPixel_def Let_def y_def x_def)
  ultimately have a: "adjustPixel cvt' value brightness contrast = word_of_int t" for cvt'
    by simp
  then have "uint (adjustPixel cvt value brightness contrast) = uint (word_of_int t :: uint8)"
    by simp
  also have "\<dots> = t" using t by (simp add: uint_word_of_int take_bit_eq_mod)
  finally have u: "uint (adjustPixel cvt value brightness contrast) = t" .
  have "clampReal (E - 1 / 2 ^ 16) \<le> clampReal (valof x)"
    using abs_interval(1) [OF e(2)] by (rule clampReal_mono)
  moreover have "clampReal (valof x) \<le> clampReal (E + 1 / 2 ^ 16)"
    using abs_interval(2) [OF e(2)] by (rule clampReal_mono)
  ultimately have "clampReal (E - 1 / 2 ^ 16) \<le> clampReal (valof x)"
      "clampReal (valof x) \<le> clampReal (E + 1 / 2 ^ 16)"
    by simp_all
  then have "\<lfloor>clampReal (E - 1 / 2 ^ 16)\<rfloor> \<le> t" "t \<le> \<lfloor>clampReal (E + 1 / 2 ^ 16)\<rfloor>"
    unfolding t_def by (simp_all only: floor_mono)
  then have "\<lfloor>clampReal (E - 1 / 2 ^ 16)\<rfloor> \<le> uint (adjustPixel cvt value brightness contrast)"
    "uint (adjustPixel cvt value brightness contrast) \<le> \<lfloor>clampReal (E + 1 / 2 ^ 16)\<rfloor>"
    by (simp_all only: u)
  moreover have "adjustPixel cvt value brightness contrast = adjustPixel cvtByte value brightness contrast"
    by (simp only: a)
  ultimately show ?thesis unfolding E_def by (intro conjI)
qed

theorem adjustPixel_brightness_first_witness:
  "isFinite (Finite False 1 (- 1)) \<and> \<bar>valof (Finite False 1 (- 1))\<bar> \<le> 1024
   \<and> isFinite (Finite False 1 1) \<and> \<bar>valof (Finite False 1 1)\<bar> \<le> 1024
   \<and> uint (adjustPixel cvtByte 0 (Finite False 1 (- 1)) (Finite False 1 1)) = 127"
  using adjustPixel_brightness_first [of "Finite False 1 (- 1)" "Finite False 1 1" 0 cvtByte]
  by (simp add: adjustedReal_def clampReal_def power_int_minus)

section \<open>Facts about the palette quantization\<close>

text \<open>The levels of all 256 channel values, evaluated sixteen at a time.\<close>

lemma levels_0: "list_all levelsOk [0..15]"
  by code_simp

lemma levels_1: "list_all levelsOk [16..31]"
  by code_simp

lemma levels_2: "list_all levelsOk [32..47]"
  by code_simp

lemma levels_3: "list_all levelsOk [48..63]"
  by code_simp

lemma levels_4: "list_all levelsOk [64..79]"
  by code_simp

lemma levels_5: "list_all levelsOk [80..95]"
  by code_simp

lemma levels_6: "list_all levelsOk [96..111]"
  by code_simp

lemma levels_7: "list_all levelsOk [112..127]"
  by code_simp

lemma levels_8: "list_all levelsOk [128..143]"
  by code_simp

lemma levels_9: "list_all levelsOk [144..159]"
  by code_simp

lemma levels_10: "list_all levelsOk [160..175]"
  by code_simp

lemma levels_11: "list_all levelsOk [176..191]"
  by code_simp

lemma levels_12: "list_all levelsOk [192..207]"
  by code_simp

lemma levels_13: "list_all levelsOk [208..223]"
  by code_simp

lemma levels_14: "list_all levelsOk [224..239]"
  by code_simp

lemma levels_15: "list_all levelsOk [240..255]"
  by code_simp

lemma list_all_upto_join:
  "list_all P [a..b] \<Longrightarrow> list_all P [m..c] \<Longrightarrow> b = m - 1 \<Longrightarrow> a \<le> m \<Longrightarrow> m \<le> c
   \<Longrightarrow> list_all P [a..c]"
  using upto_split1 [of a m c] by simp

lemma levels_upto_31: "list_all levelsOk [0..31]"
  using list_all_upto_join [OF levels_0 levels_1] by simp

lemma levels_upto_47: "list_all levelsOk [0..47]"
  using list_all_upto_join [OF levels_upto_31 levels_2] by simp

lemma levels_upto_63: "list_all levelsOk [0..63]"
  using list_all_upto_join [OF levels_upto_47 levels_3] by simp

lemma levels_upto_79: "list_all levelsOk [0..79]"
  using list_all_upto_join [OF levels_upto_63 levels_4] by simp

lemma levels_upto_95: "list_all levelsOk [0..95]"
  using list_all_upto_join [OF levels_upto_79 levels_5] by simp

lemma levels_upto_111: "list_all levelsOk [0..111]"
  using list_all_upto_join [OF levels_upto_95 levels_6] by simp

lemma levels_upto_127: "list_all levelsOk [0..127]"
  using list_all_upto_join [OF levels_upto_111 levels_7] by simp

lemma levels_upto_143: "list_all levelsOk [0..143]"
  using list_all_upto_join [OF levels_upto_127 levels_8] by simp

lemma levels_upto_159: "list_all levelsOk [0..159]"
  using list_all_upto_join [OF levels_upto_143 levels_9] by simp

lemma levels_upto_175: "list_all levelsOk [0..175]"
  using list_all_upto_join [OF levels_upto_159 levels_10] by simp

lemma levels_upto_191: "list_all levelsOk [0..191]"
  using list_all_upto_join [OF levels_upto_175 levels_11] by simp

lemma levels_upto_207: "list_all levelsOk [0..207]"
  using list_all_upto_join [OF levels_upto_191 levels_12] by simp

lemma levels_upto_223: "list_all levelsOk [0..223]"
  using list_all_upto_join [OF levels_upto_207 levels_13] by simp

lemma levels_upto_239: "list_all levelsOk [0..239]"
  using list_all_upto_join [OF levels_upto_223 levels_14] by simp

lemma levels_upto_255: "list_all levelsOk [0..255]"
  using list_all_upto_join [OF levels_upto_239 levels_15] by simp

lemma levels_all:
  assumes "0 \<le> c" and "c \<le> 255"
  shows "levelsOk c"
  using levels_upto_255 assms by (simp add: list_all_iff)

lemma f64_to_int_trunc:
  "f64_trunc x = Some v \<Longrightarrow> - (2 ^ 63) \<le> v \<Longrightarrow> v < 2 ^ 63 \<Longrightarrow> f64_to_int cvt x = word_of_int v"
  by (simp add: f64_to_int_def)

lemma lev8_range: "0 \<le> lev8 c \<and> lev8 c \<le> 7"
  by (simp add: lev8_def)

lemma lev4_range: "0 \<le> lev4 c \<and> lev4 c \<le> 3"
  by (simp add: lev4_def)

lemma lev8_mono: "c \<le> c' \<Longrightarrow> lev8 c \<le> lev8 c'"
  by (simp add: lev8_def)

lemma sint_small: "0 \<le> l \<Longrightarrow> l \<le> 7 \<Longrightarrow> sint (word_of_int l :: goint) = l"
  by (simp add: signed_of_int signed_take_bit_int_eq_self)

lemma clamp_level:
  "0 \<le> l \<and> l \<le> 7 \<Longrightarrow>
   (if (7 :: goint) <s word_of_int l then 7 else word_of_int l) = (word_of_int l :: goint)"
  "0 \<le> l \<and> l \<le> 3 \<Longrightarrow>
   (if (3 :: goint) <s word_of_int l then 3 else word_of_int l) = (word_of_int l :: goint)"
  by (simp_all add: word_sless_alt sint_small)

lemma channel_level:
  fixes c :: uint8
  shows "f64_to_int cvt (f64_mul (sqrt_go (f64_div (f64_of_int (uint c)) (f64_of_int 255)))
            (f64_const 799 100)) = word_of_int (lev8 (uint c))"
    and "f64_to_int cvt (f64_mul (sqrt_go (f64_div (f64_of_int (uint c)) (f64_of_int 255)))
            (f64_const 399 100)) = word_of_int (lev4 (uint c))"
proof -
  have "0 \<le> uint c" and "uint c \<le> 255"
    using uint_bounded [of c] by simp_all
  then have ok: "levelsOk (uint c)"
    by (rule levels_all)
  from ok have t8: "f64_trunc (f64_mul (sqrtNorm (uint c)) (f64_const 799 100)) = Some (lev8 (uint c))"
    by (simp add: levelsOk_def Let_def const_values)
  from ok have t4: "f64_trunc (f64_mul (sqrtNorm (uint c)) (f64_const 399 100)) = Some (lev4 (uint c))"
    by (simp add: levelsOk_def Let_def const_values)
  show "f64_to_int cvt (f64_mul (sqrt_go (f64_div (f64_of_int (uint c)) (f64_of_int 255)))
            (f64_const 799 100)) = word_of_int (lev8 (uint c))"
    using t8 lev8_range [of "uint c"] unfolding sqrtNorm_def
    by (intro f64_to_int_trunc) simp_all
  show "f64_to_int cvt (f64_mul (sqrt_go (f64_div (f64_of_int (uint c)) (f64_of_int 255)))
            (f64_const 399 100)) = word_of_int (lev4 (uint c))"
    using t4 lev4_range [of "uint c"] unfolding sqrtNorm_def
    by (intro f64_to_int_trunc) simp_all
qed

lemma ucast_small:
  "0 \<le> i \<Longrightarrow> i \<le> 255 \<Longrightarrow> uint (ucast (word_of_int i :: goint) :: uint8) = i"
  by (simp add: unsigned_ucast_eq unsigned_of_int take_bit_int_eq_self)

lemma colorToPalette_index:
  "uint (colorToPalette cvt r g b) = lev8 (uint r) * 32 + lev8 (uint g) * 4 + lev4 (uint b)"
proof -
  let ?i = "lev8 (uint r) * 32 + lev8 (uint g) * 4 + lev4 (uint b)"
  have range: "0 \<le> ?i" "?i \<le> 255"
    using lev8_range [of "uint r"] lev8_range [of "uint g"] lev4_range [of "uint b"] by simp_all
  have cr: "(if (7 :: goint) <s word_of_int (lev8 (uint r)) then 7 else word_of_int (lev8 (uint r)))
      = (word_of_int (lev8 (uint r)) :: goint)"
    using lev8_range [of "uint r"] by (rule clamp_level)
  have cg: "(if (7 :: goint) <s word_of_int (lev8 (uint g)) then 7 else word_of_int (lev8 (uint g)))
      = (word_of_int (lev8 (uint g)) :: goint)"
    using lev8_range [of "uint g"] by (rule clamp_level)
  have cb: "(if (3 :: goint) <s word_of_int (lev4 (uint b)) then 3 else word_of_int (lev4 (uint b)))
      = (word_of_int (lev4 (uint b)) :: goint)"
    using lev4_range [of "uint b"] by (rule clamp_level)
  have sum: "(word_of_int (lev8 (uint r)) * 32 + word_of_int (lev8 (uint g)) * 4
          + word_of_int (lev4 (uint b)) :: goint) = word_of_int ?i"
    by simp
  have "colorToPalette cvt r g b
      = ucast (word_of_int (lev8 (uint r)) * 32 + word_of_int (lev8 (uint g)) * 4
          + word_of_int (lev4 (uint b)) :: goint)"
    unfolding colorToPalette_def Let_def channel_level cr cg cb by (rule refl)
  then have "colorToPalette cvt r g b = ucast (word_of_int ?i :: goint)"
    by (simp only: sum)
  then show ?thesis
    using range by (simp only: ucast_small)
qed

text \<open>
  C4.  For fixed green and blue, a larger red never gives a smaller palette index:
  the index is \<open>32 * r + 4 * g + b\<close> with the levels above, and the red level is
  non-decreasing in the red channel also with the ten-step Newton square root.
\<close>

theorem colorToPalette_monotone_red:
  assumes "r1 < r2"
  shows "colorToPalette cvt r1 g b \<le> colorToPalette cvt r2 g b"
proof -
  from assms have "uint r1 \<le> uint r2"
    by (simp add: word_less_def)
  then have "lev8 (uint r1) \<le> lev8 (uint r2)"
    by (rule lev8_mono)
  then show ?thesis
    by (simp add: word_le_def colorToPalette_index)
qed

theorem colorToPalette_monotone_red_witness:
  "(3 :: uint8) < 4 \<and> colorToPalette cvtInt 3 200 100 \<le> colorToPalette cvtInt 4 200 100"
  using colorToPalette_monotone_red [of 3 4 cvtInt 200 100] by simp


end
